theory Spec2Isabelle
  imports Complex_Main "HOL-Library.Word" "HOL-Library.Monad_Syntax"
begin

unbundle bit_operations_syntax

section \<open>The C types of \<open>main.c\<close>\<close>

text \<open>
  A \<open>char\<close> of the code buffer is read through \<open>unsigned char\<close>, so a byte is an 8-bit
  word. A C \<open>double\<close> is modelled by its IEEE-754 binary64 bit pattern: bit 63 is the
  sign, bits 62..52 the biased exponent, bits 51..0 the fraction. Two doubles are the same
  object representation exactly when the words are equal.
\<close>

type_synonym byte = "8 word"
type_synonym double = "64 word"

definition dsign :: "double \<Rightarrow> bool" where
  "dsign d = bit d 63"

definition dexp :: "double \<Rightarrow> nat" where
  "dexp d = unat (drop_bit 52 d AND 0x7FF)"

definition dfrac :: "double \<Rightarrow> nat" where
  "dfrac d = unat (d AND 0xFFFFFFFFFFFFF)"

definition is_nan :: "double \<Rightarrow> bool" where
  "is_nan d = (dexp d = 2047 \<and> dfrac d \<noteq> 0)"

definition is_inf :: "double \<Rightarrow> bool" where
  "is_inf d = (dexp d = 2047 \<and> dfrac d = 0)"

text \<open>\<open>+0.0\<close> and \<open>-0.0\<close>: the doubles that compare equal to zero, so that \<open>!b\<close> holds.\<close>

definition is_zero :: "double \<Rightarrow> bool" where
  "is_zero d = (dexp d = 0 \<and> dfrac d = 0)"

text \<open>A finite double is \<open>\<plusminus> mant * 2 ^ expo\<close>.\<close>

definition mant :: "double \<Rightarrow> nat" where
  "mant d = (if dexp d = 0 then dfrac d else 2 ^ 52 + dfrac d)"

definition expo :: "double \<Rightarrow> int" where
  "expo d = (if dexp d = 0 then - 1074 else int (dexp d) - 1075)"

definition smant :: "double \<Rightarrow> int" where
  "smant d = (if dsign d then - int (mant d) else int (mant d))"

definition dval :: "double \<Rightarrow> rat" where
  "dval d = of_int (smant d) * 2 powi expo d"

definition sign_bit :: "bool \<Rightarrow> double" where
  "sign_bit s = (if s then 0x8000000000000000 else 0)"

definition d_inf :: "bool \<Rightarrow> double" where
  "d_inf s = sign_bit s OR 0x7FF0000000000000"

definition d_zero :: "bool \<Rightarrow> double" where
  "d_zero s = sign_bit s"

text \<open>The literals of the source.\<close>

definition d_m1 :: double where "d_m1 = 0xBFF0000000000000"
definition d_0 :: double where "d_0 = 0"
definition d_1 :: double where "d_1 = 0x3FF0000000000000"
definition d_2 :: double where "d_2 = 0x4000000000000000"

subsection \<open>Rounding to nearest, ties to even\<close>

fun bitlen :: "nat \<Rightarrow> nat" where
  "bitlen n = (if n = 0 then 0 else Suc (bitlen (n div 2)))"

declare bitlen.simps [simp del]

text \<open>Numerator and denominator of the fraction \<open>n / d * 2 ^ e\<close>.\<close>

definition scale_num :: "nat \<Rightarrow> int \<Rightarrow> nat" where
  "scale_num n e = (if 0 \<le> e then n * 2 ^ nat e else n)"

definition scale_den :: "nat \<Rightarrow> int \<Rightarrow> nat" where
  "scale_den d e = (if 0 \<le> e then d else d * 2 ^ nat (- e))"

text \<open>The integer nearest to \<open>n / d\<close>, the even one of two that are equally near.\<close>

definition rne :: "nat \<Rightarrow> nat \<Rightarrow> nat" where
  "rne n d =
     (if 2 * (n mod d) < d then n div d
      else if d < 2 * (n mod d) then n div d + 1
      else if even (n div d) then n div d else n div d + 1)"

text \<open>
  The exponent \<open>ex\<close> of the largest power of two not above \<open>n / d\<close> (\<open>n, d > 0\<close>): the
  difference \<open>l\<close> of the bit lengths, or one less.
\<close>

definition ilog2_from :: "nat \<Rightarrow> nat \<Rightarrow> int \<Rightarrow> int" where
  "ilog2_from n d l = (if scale_den d (- l) \<le> scale_num n (- l) then l else l - 1)"

definition ilog2 :: "nat \<Rightarrow> nat \<Rightarrow> int" where
  "ilog2 n d = ilog2_from n d (int (bitlen n) - int (bitlen d))"

text \<open>
  The double with sign \<open>s\<close> and the magnitude bits \<open>bits\<close>; infinity from the exponent
  field 2047 on.
\<close>

definition pack :: "bool \<Rightarrow> nat \<Rightarrow> double" where
  "pack s bits = (if 0x7FF0000000000000 \<le> bits then d_inf s else sign_bit s OR of_nat bits)"

text \<open>
  The double nearest to \<open>\<plusminus> n / d * 2 ^ e\<close>, whose magnitude is in the binade of \<open>2 ^ k\<close>,
  is a multiple of \<open>2 ^ (k - 52)\<close>. Adding the rounded multiple to the exponent field
  carries into the next binade by itself.
\<close>

definition round_in_binade :: "bool \<Rightarrow> nat \<Rightarrow> nat \<Rightarrow> int \<Rightarrow> int \<Rightarrow> double" where
  "round_in_binade s n d e k =
     pack s (nat (k + 1022) * 2 ^ 52 + rne (scale_num n (e + 52 - k)) (scale_den d (e + 52 - k)))"

text \<open>
  The double nearest to \<open>\<plusminus> n / d * 2 ^ e\<close> (\<open>d > 0\<close>); below \<open>2 ^ - 1022\<close> the doubles
  are the multiples of \<open>2 ^ - 1074\<close>.
\<close>

definition round_double :: "bool \<Rightarrow> nat \<Rightarrow> nat \<Rightarrow> int \<Rightarrow> double" where
  "round_double s n d e =
     (if n = 0 then d_zero s
      else round_in_binade s n d e (max (e + ilog2 n d) (- 1022)))"

subsection \<open>Arithmetic on doubles\<close>

definition dneg :: "double \<Rightarrow> double" where
  "dneg d = d XOR 0x8000000000000000"

text \<open>The sum \<open>m * 2 ^ e\<close> of two finite doubles with signs \<open>sa\<close> and \<open>sb\<close>, rounded.\<close>

definition round_sum :: "bool \<Rightarrow> bool \<Rightarrow> int \<Rightarrow> int \<Rightarrow> double" where
  "round_sum sa sb m e =
     (if m = 0 then d_zero (sa \<and> sb) else round_double (m < 0) (nat \<bar>m\<bar>) 1 e)"

text \<open>The integer \<open>m\<close> with \<open>m * 2 ^ e\<close> the value of the finite double \<open>a\<close>, for \<open>e \<le> expo a\<close>.\<close>

definition aligned :: "double \<Rightarrow> int \<Rightarrow> int" where
  "aligned a e = smant a * 2 ^ nat (expo a - e)"

text \<open>
  The sum of two doubles that are not NaNs and not infinities of opposite sign.
\<close>

definition dsum :: "double \<Rightarrow> double \<Rightarrow> double" where
  "dsum a b =
     (if is_inf a then a
      else if is_inf b then b
      else round_sum (dsign a) (dsign b)
             (aligned a (min (expo a) (expo b)) + aligned b (min (expo a) (expo b)))
             (min (expo a) (expo b)))"

text \<open>
  When an operand is a NaN, or the operation is invalid (\<open>\<infinity> - \<infinity>\<close>, \<open>0 * \<infinity>\<close>, \<open>\<infinity> / \<infinity>\<close>,
  \<open>0 / 0\<close>), the result is a NaN, and IEEE-754 and C leave its sign and payload to the
  implementation. Each operation takes that choice as its first argument: \<open>nan a b\<close> is the
  NaN that the machine running the program gives for the operands \<open>a\<close> and \<open>b\<close>.
\<close>

definition dadd :: "(double \<Rightarrow> double \<Rightarrow> double) \<Rightarrow> double \<Rightarrow> double \<Rightarrow> double" where
  "dadd nan a b =
     (if is_nan a \<or> is_nan b \<or> is_inf a \<and> is_inf b \<and> dsign a \<noteq> dsign b then nan a b
      else dsum a b)"

definition dsub :: "(double \<Rightarrow> double \<Rightarrow> double) \<Rightarrow> double \<Rightarrow> double \<Rightarrow> double" where
  "dsub nan a b =
     (if is_nan a \<or> is_nan b \<or> is_inf a \<and> is_inf b \<and> dsign a = dsign b then nan a b
      else dsum a (dneg b))"

definition dmul :: "(double \<Rightarrow> double \<Rightarrow> double) \<Rightarrow> double \<Rightarrow> double \<Rightarrow> double" where
  "dmul nan a b =
     (if is_nan a \<or> is_nan b \<or> is_inf a \<and> is_zero b \<or> is_zero a \<and> is_inf b then nan a b
      else if is_inf a \<or> is_inf b then d_inf (dsign a \<noteq> dsign b)
      else round_double (dsign a \<noteq> dsign b) (mant a * mant b) 1 (expo a + expo b))"

definition ddiv :: "(double \<Rightarrow> double \<Rightarrow> double) \<Rightarrow> double \<Rightarrow> double \<Rightarrow> double" where
  "ddiv nan a b =
     (if is_nan a \<or> is_nan b \<or> is_inf a \<and> is_inf b \<or> is_zero a \<and> is_zero b then nan a b
      else if is_inf a then d_inf (dsign a \<noteq> dsign b)
      else if is_inf b then d_zero (dsign a \<noteq> dsign b)
      else if is_zero b then d_inf (dsign a \<noteq> dsign b)
      else round_double (dsign a \<noteq> dsign b) (mant a) (mant b) (expo a - expo b))"

subsection \<open>What the arithmetic is to compute\<close>

text \<open>A double is finite when it is neither a NaN nor an infinity.\<close>

definition is_finite :: "double \<Rightarrow> bool" where
  "is_finite d \<longleftrightarrow> \<not> is_nan d \<and> \<not> is_inf d"

text \<open>
  Rounding to nearest, ties to even, as IEEE-754 defines it: \<open>r\<close> is a finite double, no
  finite double is nearer to the exact value \<open>q\<close>, and when a finite double of another value
  is as near as \<open>r\<close>, the significand of \<open>r\<close> is even.
\<close>

definition nearest :: "rat \<Rightarrow> double \<Rightarrow> bool" where
  "nearest q r \<longleftrightarrow>
     is_finite r \<and>
     (\<forall>x. is_finite x \<longrightarrow>
        \<bar>dval r - q\<bar> \<le> \<bar>dval x - q\<bar> \<and>
        (dval x \<noteq> dval r \<and> \<bar>dval x - q\<bar> = \<bar>dval r - q\<bar> \<longrightarrow> even (mant r)))"

text \<open>
  The double \<open>r\<close> that an operation with the exact value \<open>q\<close> and the sign \<open>s\<close> has to give:
  the nearest double while \<open>\<bar>q\<bar>\<close> is below \<open>2 ^ 1024 - 2 ^ 970\<close>, the middle between the
  largest double and \<open>2 ^ 1024\<close>, and the infinity from there on; its sign bit is \<open>s\<close>, also
  when it is a zero.
\<close>

definition rounds_to :: "rat \<Rightarrow> bool \<Rightarrow> double \<Rightarrow> bool" where
  "rounds_to q s r \<longleftrightarrow>
     dsign r = s \<and> (if \<bar>q\<bar> < 2 ^ 1024 - 2 ^ 970 then nearest q r else r = d_inf s)"

lemmas double_defs =
  dsign_def dexp_def dfrac_def is_nan_def is_inf_def is_zero_def mant_def expo_def smant_def
  sign_bit_def d_inf_def d_zero_def d_m1_def d_0_def d_1_def d_2_def
  bitlen.simps scale_num_def scale_den_def rne_def ilog2_from_def ilog2_def pack_def
  round_in_binade_def round_double_def dneg_def round_sum_def aligned_def dsum_def
  dadd_def dsub_def dmul_def ddiv_def

section \<open>The machine\<close>

subsection \<open>Opcodes\<close>

text \<open>The enumeration \<open>opcodes\<close> and the value of each of its constants.\<close>

datatype opcodes =
  HALT | DCONST_M1 | DCONST_0 | DCONST_1 | DCONST_2 | DCONST
  | ADD | SUB | MUL | DIV | NEG | NOP | PRINT | ST1 | LD1 | ST2 | LD2

fun opcode_value :: "opcodes \<Rightarrow> byte" where
  "opcode_value HALT = 0x00"
| "opcode_value DCONST_M1 = 0x0A"
| "opcode_value DCONST_0 = 0x0B"
| "opcode_value DCONST_1 = 0x0C"
| "opcode_value DCONST_2 = 0x0D"
| "opcode_value DCONST = 0x0F"
| "opcode_value ADD = 0x60"
| "opcode_value SUB = 0x61"
| "opcode_value MUL = 0x62"
| "opcode_value DIV = 0x64"
| "opcode_value NEG = 0x70"
| "opcode_value NOP = 0xF0"
| "opcode_value PRINT = 0xF2"
| "opcode_value ST1 = 0xF4"
| "opcode_value LD1 = 0xF5"
| "opcode_value ST2 = 0xF6"
| "opcode_value LD2 = 0xF7"

declare opcode_value.simps [simp del]

text \<open>
  The \<open>switch\<close> of \<open>run\<close> compares the fetched byte with its case labels, listed here in
  the order of the source; a byte that equals none of them goes to \<open>default\<close>.
\<close>

definition case_labels :: "opcodes list" where
  "case_labels =
     [HALT, NOP, DCONST_M1, DCONST_0, DCONST_1, DCONST_2, DCONST, ADD, MUL, SUB, DIV, NEG,
      LD1, ST1, LD2, ST2, PRINT]"

definition decode :: "byte \<Rightarrow> opcodes option" where
  "decode b = find (\<lambda>opc. opcode_value opc = b) case_labels"

text \<open>
  The NaN that each arithmetic opcode gives for a NaN operand or an invalid operation is a
  property of the machine that runs the program, like its byte order.
\<close>

type_synonym nan_rule = "opcodes \<Rightarrow> double \<Rightarrow> double \<Rightarrow> double"

text \<open>
  One such rule, that of the SSE2 instructions \<open>addsd\<close>, \<open>subsd\<close>, \<open>mulsd\<close> and \<open>divsd\<close> with
  \<open>a\<close> in the destination register: a NaN operand comes back with its quiet bit (bit 51)
  set, the first operand if both are NaNs, and an invalid operation gives the NaN with the
  sign bit set and an empty payload.
\<close>

definition sse_nan :: nan_rule where
  "sse_nan opc a b =
     (if is_nan a then a OR 0x8000000000000
      else if is_nan b then b OR 0x8000000000000
      else 0xFFF8000000000000)"

subsection \<open>State\<close>

definition STACK_SIZE :: nat where "STACK_SIZE = 256"

definition EXIT_SUCCESS :: int where "EXIT_SUCCESS = 0"
definition EXIT_FAILURE :: int where "EXIT_FAILURE = 1"

definition INT_MAX :: int where "INT_MAX = 2147483647"

text \<open>Conversion of an out-of-range value to the 32-bit \<open>int\<close>: reduction modulo \<open>2 ^ 32\<close>.\<close>

definition int32 :: "int \<Rightarrow> int" where
  "int32 k = (k + 2 ^ 31) mod 2 ^ 32 - 2 ^ 31"

text \<open>
  \<open>code\<close> and \<open>stack\<close> point to arrays; the lists are the arrays they point to, and
  their lengths the sizes of the allocated objects. The struct itself has no field for
  either size. The registers are set from the \<open>int\<close> 0, which converts to \<open>+0.0\<close>.
\<close>

record VM =
  r1 :: double
  r2 :: double
  code :: "byte list"
  stack :: "double list"
  pc :: int
  sp :: int

text \<open>
  \<open>malloc\<close> does not initialise the stack: \<open>mem\<close> is whatever the fresh block of
  \<open>STACK_SIZE\<close> doubles holds.
\<close>

definition newVM :: "byte list \<Rightarrow> (nat \<Rightarrow> double) \<Rightarrow> VM" where
  "newVM c mem = \<lparr>r1 = d_0, r2 = d_0, code = c, stack = map mem [0..<STACK_SIZE], pc = 0, sp = - 1\<rparr>"

text \<open>
  What \<open>printf\<close> writes to standard output, one event per call: a popped value
  (\<open>"%lf\n"\<close>), or one of the two error lines with the opcode.
\<close>

datatype event = Printed double | DividingByZeroError byte | InvalidOpcodeError byte

subsection \<open>The access macros\<close>

text \<open>
  None of the macros tests its index. An access outside the array, and the overflow of an
  \<open>int\<close> increment, are undefined behaviour in C: the model returns \<open>None\<close> there, and
  \<open>None\<close> is not a result of the program.
\<close>

definition PUSH :: "VM \<Rightarrow> double \<Rightarrow> VM option" where
  "PUSH vm v =
     (let i = sp vm + 1
      in if sp vm < INT_MAX \<and> 0 \<le> i \<and> i < int (length (stack vm))
         then Some (vm\<lparr>stack := (stack vm)[nat i := v], sp := i\<rparr>)
         else None)"

definition POP :: "VM \<Rightarrow> (double \<times> VM) option" where
  "POP vm =
     (let i = sp vm
      in if 0 \<le> i \<and> i < int (length (stack vm))
         then Some (stack vm ! nat i, vm\<lparr>sp := i - 1\<rparr>)
         else None)"

definition NCODE :: "VM \<Rightarrow> (byte \<times> VM) option" where
  "NCODE vm =
     (let i = pc vm
      in if 0 \<le> i \<and> i < int (length (code vm)) \<and> i < INT_MAX
         then Some (code vm ! nat i, vm\<lparr>pc := i + 1\<rparr>)
         else None)"

subsection \<open>Reading the operand of \<open>DCONST\<close>\<close>

text \<open>
  \<open>memcpy\<close> copies the eight bytes at \<open>&code[pc]\<close> into the object representation of a
  double, so the value depends on the byte order of the machine that runs the program.
\<close>

datatype byte_order = LittleEndian | BigEndian

text \<open>The word whose most significant byte comes first in the list.\<close>

definition cat_bytes :: "byte list \<Rightarrow> double" where
  "cat_bytes bs = foldl (\<lambda>w b. push_bit 8 w OR ucast b) 0 bs"

definition double_of_bytes :: "byte_order \<Rightarrow> byte list \<Rightarrow> double" where
  "double_of_bytes bo bs = (case bo of LittleEndian \<Rightarrow> cat_bytes (rev bs) | BigEndian \<Rightarrow> cat_bytes bs)"

definition memcpy_double :: "byte_order \<Rightarrow> VM \<Rightarrow> double option" where
  "memcpy_double bo vm =
     (if 0 \<le> pc vm \<and> pc vm + 8 \<le> int (length (code vm))
      then Some (double_of_bytes bo (take 8 (drop (nat (pc vm)) (code vm))))
      else None)"

subsection \<open>The interpreter loop\<close>

text \<open>
  One turn of the \<open>for (;;)\<close> loop of \<open>run\<close>: either the loop goes on, or \<open>run\<close> returns
  a status; both with the machine as it is then and the lines printed in this turn.
\<close>

datatype step_result = Continue VM "event list" | Exit int VM "event list"

text \<open>The body of one case of the \<open>switch\<close>, entered after the opcode has been fetched.\<close>

fun execute :: "byte_order \<Rightarrow> nan_rule \<Rightarrow> opcodes \<Rightarrow> VM \<Rightarrow> step_result option" where
  "execute bo nan HALT vm = Some (Exit EXIT_SUCCESS vm [])"
| "execute bo nan NOP vm = Some (Continue vm [])"
| "execute bo nan DCONST_M1 vm = do { vm \<leftarrow> PUSH vm d_m1; Some (Continue vm []) }"
| "execute bo nan DCONST_0 vm = do { vm \<leftarrow> PUSH vm d_0; Some (Continue vm []) }"
| "execute bo nan DCONST_1 vm = do { vm \<leftarrow> PUSH vm d_1; Some (Continue vm []) }"
| "execute bo nan DCONST_2 vm = do { vm \<leftarrow> PUSH vm d_2; Some (Continue vm []) }"
| "execute bo nan DCONST vm = do {
     b \<leftarrow> memcpy_double bo vm;
     vm \<leftarrow> Some (vm\<lparr>pc := int32 (pc vm + 8)\<rparr>);
     vm \<leftarrow> PUSH vm b;
     Some (Continue vm []) }"
| "execute bo nan ADD vm = do {
     (b, vm) \<leftarrow> POP vm;
     (a, vm) \<leftarrow> POP vm;
     vm \<leftarrow> PUSH vm (dadd (nan ADD) a b);
     Some (Continue vm []) }"
| "execute bo nan MUL vm = do {
     (b, vm) \<leftarrow> POP vm;
     (a, vm) \<leftarrow> POP vm;
     vm \<leftarrow> PUSH vm (dmul (nan MUL) a b);
     Some (Continue vm []) }"
| "execute bo nan SUB vm = do {
     (b, vm) \<leftarrow> POP vm;
     (a, vm) \<leftarrow> POP vm;
     vm \<leftarrow> PUSH vm (dsub (nan SUB) a b);
     Some (Continue vm []) }"
| "execute bo nan DIV vm = do {
     (b, vm) \<leftarrow> POP vm;
     (a, vm) \<leftarrow> POP vm;
     if is_zero b then Some (Exit EXIT_FAILURE vm [DividingByZeroError (opcode_value DIV)])
     else do { vm \<leftarrow> PUSH vm (ddiv (nan DIV) a b); Some (Continue vm []) } }"
| "execute bo nan NEG vm = do {
     (b, vm) \<leftarrow> POP vm;
     vm \<leftarrow> PUSH vm (dneg b);
     Some (Continue vm []) }"
| "execute bo nan LD1 vm = do { vm \<leftarrow> PUSH vm (r1 vm); Some (Continue vm []) }"
| "execute bo nan ST1 vm = do {
     (b, vm) \<leftarrow> POP vm;
     Some (Continue (vm\<lparr>r1 := b\<rparr>) []) }"
| "execute bo nan LD2 vm = do { vm \<leftarrow> PUSH vm (r2 vm); Some (Continue vm []) }"
| "execute bo nan ST2 vm = do {
     (b, vm) \<leftarrow> POP vm;
     Some (Continue (vm\<lparr>r2 := b\<rparr>) []) }"
| "execute bo nan PRINT vm = do {
     (a, vm) \<leftarrow> POP vm;
     Some (Continue vm [Printed a]) }"

definition step :: "byte_order \<Rightarrow> nan_rule \<Rightarrow> VM \<Rightarrow> step_result option" where
  "step bo nan vm0 = do {
     (opcode, vm) \<leftarrow> NCODE vm0;
     case decode opcode of
       Some opc \<Rightarrow> execute bo nan opc vm
     | None \<Rightarrow> Some (Exit EXIT_FAILURE vm [InvalidOpcodeError opcode]) }"

fun vm_of :: "step_result \<Rightarrow> VM" where
  "vm_of (Continue vm out) = vm"
| "vm_of (Exit status vm out) = vm"

text \<open>
  The number of opcodes left to fetch when the program counter is inside the buffer: it
  bounds the turns of the loop.
\<close>

definition remaining :: "VM \<Rightarrow> nat" where
  "remaining vm = (if pc vm < 0 then 0 else Suc (nat (int (length (code vm)) - pc vm)))"

section \<open>The doubles\<close>

text \<open>The doubles that are zero are exactly the two zeros, and negation flips the sign back.\<close>

lemma is_zero_bits: "is_zero d \<longleftrightarrow> (\<forall>n<63. \<not> bit d n)"
proof -
  have m: "(0xFFFFFFFFFFFFF :: double) = mask 52" "(0x7FF :: double) = mask 11"
    by (simp_all add: mask_eq_exp_minus_1)
  have "is_zero d \<longleftrightarrow> take_bit 11 (drop_bit 52 d) = 0 \<and> take_bit 52 d = 0"
    by (simp add: is_zero_def dexp_def dfrac_def unat_eq_0 m take_bit_eq_mask)
  also have "\<dots> \<longleftrightarrow> (\<forall>n<11. \<not> bit d (52 + n)) \<and> (\<forall>n<52. \<not> bit d n)"
    by (auto simp: bit_eq_iff bit_take_bit_iff bit_drop_bit_eq)
  also have "\<dots> \<longleftrightarrow> (\<forall>n<63. \<not> bit d n)"
  proof (intro iffI allI impI)
    fix n :: nat
    assume a: "(\<forall>n<11. \<not> bit d (52 + n)) \<and> (\<forall>n<52. \<not> bit d n)" and n: "n < 63"
    show "\<not> bit d n"
    proof (cases "n < 52")
      case True
      with a show ?thesis by simp
    next
      case False
      with n have "n - 52 < 11" "52 + (n - 52) = n" by simp_all
      with a show ?thesis by metis
    qed
  next
    assume "\<forall>n<63. \<not> bit d n"
    then show "(\<forall>n<11. \<not> bit d (52 + n)) \<and> (\<forall>n<52. \<not> bit d n)" by simp
  qed
  finally show ?thesis .
qed

lemma is_zero_iff: "is_zero d \<longleftrightarrow> d = 0 \<or> d = 0x8000000000000000"
proof -
  have p: "(0x8000000000000000 :: double) = 2 ^ 63" by simp
  have b: "bit (2 ^ 63 :: double) n \<longleftrightarrow> n = 63" for n
    by (simp only: bit_exp_iff possible_bit_word) auto
  show ?thesis
  proof
    assume "is_zero d"
    then have z: "\<not> bit d n" if "n < 63" for n using that by (simp add: is_zero_bits)
    show "d = 0 \<or> d = 0x8000000000000000"
    proof (cases "bit d 63")
      case True
      have "d = 2 ^ 63"
      proof (rule bit_eqI)
        fix n
        have "bit d n \<longleftrightarrow> n = 63"
          using True z [of n] bit_imp_le_length [of d n]
          by (cases "n < 63"; cases "n = 63") auto
        then show "bit d n \<longleftrightarrow> bit (2 ^ 63 :: double) n"
          by (simp only: b)
      qed
      then show ?thesis by (simp only: p simp_thms)
    next
      case False
      have "d = 0"
      proof (rule bit_eqI)
        fix n
        show "bit d n \<longleftrightarrow> bit (0 :: double) n"
          using False z [of n] bit_imp_le_length [of d n]
          by (cases "n < 63"; cases "n = 63") auto
      qed
      then show ?thesis by simp
    qed
  next
    assume "d = 0 \<or> d = 0x8000000000000000"
    then show "is_zero d" by (auto simp: is_zero_def dexp_def dfrac_def)
  qed
qed

lemma dneg_involution: "dneg (dneg d) = d"
  by (auto simp: dneg_def bit_eq_iff bit_xor_iff)

text \<open>
  Values of the arithmetic: \<open>0.1 + 0.2\<close> and \<open>1 / 3\<close>, overflow to infinity, ties to even
  among the subnormals and at \<open>1 + 2 ^ - 53\<close>, and the sign of a zero result.
\<close>

lemma double_arithmetic_examples:
  "dadd nan 0x3FB999999999999A 0x3FC999999999999A = 0x3FD3333333333334"
  "ddiv nan d_1 0x4008000000000000 = 0x3FD5555555555555"
  "dmul nan 0x7FEFFFFFFFFFFFFF d_2 = d_inf False"
  "ddiv nan 1 d_2 = 0"
  "ddiv nan 3 d_2 = 2"
  "dadd nan d_1 0x3CA0000000000000 = d_1"
  "dadd nan 0x3FF0000000000001 0x3CA0000000000000 = 0x3FF0000000000002"
  "dsub nan d_1 d_1 = d_zero False"
  "dadd nan (d_zero True) (d_zero True) = d_zero True"
  "dmul nan d_m1 d_0 = d_zero True"
  "dneg d_1 = d_m1"
  by (simp_all add: double_defs)

text \<open>
  The NaNs of the rule \<open>sse_nan\<close>: the invalid operations give the NaN with the sign bit set
  and an empty payload, and a NaN operand comes back quiet with its sign and payload.
\<close>

lemma sse_nan_examples:
  "dsub (sse_nan SUB) (d_inf False) (d_inf False) = 0xFFF8000000000000"
  "dadd (sse_nan ADD) (d_inf False) (d_inf True) = 0xFFF8000000000000"
  "dmul (sse_nan MUL) d_0 (d_inf False) = 0xFFF8000000000000"
  "ddiv (sse_nan DIV) (d_inf False) (d_inf False) = 0xFFF8000000000000"
  "ddiv (sse_nan DIV) d_1 0xFFF0000000000001 = 0xFFF8000000000001"
  "dadd (sse_nan ADD) 0x7FF0000000000001 d_1 = 0x7FF8000000000001"
  "dsub (sse_nan SUB) d_1 0xFFF0000000000001 = 0xFFF8000000000001"
  by (simp_all add: double_defs sse_nan_def)

text \<open>Whatever the operands are, the rule \<open>sse_nan\<close> gives a NaN.\<close>

lemma quiet_is_nan:
  assumes "is_nan a"
  shows "is_nan (a OR 0x8000000000000)"
proof -
  have c: "(0x8000000000000 :: double) = push_bit 51 1" by simp
  have m: "(0xFFFFFFFFFFFFF :: double) = mask 52" "(0x7FF :: double) = mask 11"
    by (simp_all add: mask_eq_exp_minus_1)
  have "take_bit 11 (drop_bit 52 (a OR push_bit 51 1)) = take_bit 11 (drop_bit 52 a)"
    by (rule bit_eqI) (auto simp: bit_simps)
  then have e: "dexp (a OR 0x8000000000000) = dexp a"
    by (simp only: dexp_def c m flip: take_bit_eq_mask)
  have b: "bit (take_bit 52 (a OR push_bit 51 1)) 51" by (simp add: bit_simps)
  have "take_bit 52 (a OR push_bit 51 1) \<noteq> 0"
  proof
    assume "take_bit 52 (a OR push_bit 51 1) = 0"
    with b have "bit (0 :: double) 51" by (simp only:)
    then show False by simp
  qed
  then have f: "dfrac (a OR 0x8000000000000) \<noteq> 0"
    by (simp only: dfrac_def c m unat_eq_0 flip: take_bit_eq_mask) simp
  show ?thesis using assms by (simp only: is_nan_def e f) simp
qed

lemma sse_nan_is_nan: "is_nan (sse_nan opc a b)"
proof -
  have "is_nan (0xFFF8000000000000 :: double)" by (simp add: double_defs)
  then show ?thesis by (simp add: sse_nan_def quiet_is_nan)
qed

section \<open>The arithmetic rounds to the nearest double\<close>

subsection \<open>The nearest integer and the binade of a fraction\<close>

lemma bitlen_bounds: "0 < n \<Longrightarrow> 2 ^ (bitlen n - 1) \<le> n \<and> n < 2 ^ bitlen n"
proof (induction n rule: bitlen.induct)
  case (1 n)
  show ?case
  proof (cases "n div 2 = 0")
    case True
    with "1.prems" have "n = 1" by linarith
    then show ?thesis by (simp add: bitlen.simps)
  next
    case False
    then have p: "0 < n div 2" by simp
    from "1.IH" [OF _ p] "1.prems"
    have ih: "2 ^ (bitlen (n div 2) - 1) \<le> n div 2" "n div 2 < 2 ^ bitlen (n div 2)" by auto
    have b: "bitlen n = Suc (bitlen (n div 2))" using "1.prems" by (subst bitlen.simps) simp
    from ih(1) have "2 * 2 ^ (bitlen (n div 2) - 1) \<le> n" by linarith
    moreover have "0 < bitlen (n div 2)" using p by (subst bitlen.simps) simp
    then have "(2::nat) * 2 ^ (bitlen (n div 2) - 1) = 2 ^ bitlen (n div 2)"
      by (cases "bitlen (n div 2)") simp_all
    moreover from ih(2) have "n < 2 * 2 ^ bitlen (n div 2)" by linarith
    ultimately show ?thesis by (simp add: b)
  qed
qed

lemma scale_pos: "0 < d \<Longrightarrow> 0 < scale_den d t"
  by (simp add: scale_den_def)

lemma scale_ratio:
  "0 < d \<Longrightarrow>
     (of_nat (scale_num n t) :: rat) / of_nat (scale_den d t) = of_nat n / of_nat d * 2 powi t"
proof (cases "0 \<le> t")
  case True
  assume "0 < d"
  from True have "(2 :: rat) powi t = 2 ^ nat t" by (simp add: power_int_def)
  then show ?thesis using True by (simp add: scale_num_def scale_den_def)
next
  case False
  assume "0 < d"
  from False have "(2 :: rat) powi t = inverse (2 ^ nat (- t))"
    by (simp add: power_int_def power_one_over inverse_eq_divide)
  then show ?thesis using False by (simp add: scale_num_def scale_den_def divide_inverse)
qed

lemma rne_error:
  assumes "0 < d"
  shows "\<bar>(of_nat (rne n d) :: rat) - of_nat n / of_nat d\<bar> \<le> 1 / 2"
    and "\<bar>(of_nat (rne n d) :: rat) - of_nat n / of_nat d\<bar> = 1 / 2 \<Longrightarrow> even (rne n d)"
proof -
  define q r where "q = n div d" and "r = n mod d"
  have n: "n = q * d + r" and rd: "r < d" using assms by (simp_all add: q_def r_def)
  have D: "(0 :: rat) < of_nat d" using assms by simp
  have frac: "(of_nat n :: rat) / of_nat d = of_nat q + of_nat r / of_nat d"
    using D by (simp add: n field_simps)
  have r0: "(0 :: rat) \<le> of_nat r / of_nat d" "(of_nat r :: rat) / of_nat d < 1"
    using D rd by simp_all
  consider (lo) "2 * r < d" | (hi) "d < 2 * r" | (tie) "2 * r = d" by linarith
  then have "\<bar>(of_nat (rne n d) :: rat) - of_nat n / of_nat d\<bar> \<le> 1 / 2 \<and>
    (\<bar>(of_nat (rne n d) :: rat) - of_nat n / of_nat d\<bar> = 1 / 2 \<longrightarrow> even (rne n d))"
  proof cases
    case lo
    then have v: "rne n d = q" by (simp add: rne_def q_def r_def)
    from lo have "(of_nat (2 * r) :: rat) < of_nat d" by (simp only: of_nat_less_iff)
    then have "(of_nat r :: rat) / of_nat d < 1 / 2" using D by (simp add: field_simps)
    moreover have "\<bar>(of_nat (rne n d) :: rat) - of_nat n / of_nat d\<bar> = of_nat r / of_nat d"
      using r0 by (simp add: v frac)
    ultimately have "\<bar>(of_nat (rne n d) :: rat) - of_nat n / of_nat d\<bar> < 1 / 2"
      by (simp only:)
    then have "\<bar>(of_nat (rne n d) :: rat) - of_nat n / of_nat d\<bar> \<le> 1 / 2"
      "\<bar>(of_nat (rne n d) :: rat) - of_nat n / of_nat d\<bar> \<noteq> 1 / 2"
      by linarith+
    then show ?thesis by blast
  next
    case hi
    then have v: "rne n d = q + 1" by (simp add: rne_def q_def r_def)
    from hi have "(of_nat d :: rat) < of_nat (2 * r)" by (simp only: of_nat_less_iff)
    then have "1 / 2 < (of_nat r :: rat) / of_nat d" using D by (simp add: field_simps)
    moreover have "\<bar>(of_nat (rne n d) :: rat) - of_nat n / of_nat d\<bar> = 1 - of_nat r / of_nat d"
      using r0 by (simp add: v frac)
    ultimately have "\<bar>(of_nat (rne n d) :: rat) - of_nat n / of_nat d\<bar> < 1 / 2"
      by (simp only:)
    then have "\<bar>(of_nat (rne n d) :: rat) - of_nat n / of_nat d\<bar> \<le> 1 / 2"
      "\<bar>(of_nat (rne n d) :: rat) - of_nat n / of_nat d\<bar> \<noteq> 1 / 2"
      by linarith+
    then show ?thesis by blast
  next
    case tie
    then have "(of_nat (2 * r) :: rat) = of_nat d" by (simp only: of_nat_eq_iff)
    then have h: "(of_nat r :: rat) / of_nat d = 1 / 2" using D by (simp add: field_simps)
    have "rne n d = (if even q then q else q + 1)"
      using tie by (simp add: rne_def q_def r_def)
    then show ?thesis by (auto simp: frac h)
  qed
  then show "\<bar>(of_nat (rne n d) :: rat) - of_nat n / of_nat d\<bar> \<le> 1 / 2"
    and "\<bar>(of_nat (rne n d) :: rat) - of_nat n / of_nat d\<bar> = 1 / 2 \<Longrightarrow> even (rne n d)"
    by simp_all
qed

lemma powi_nat: "(2 :: rat) powi int k = 2 ^ k"
  by simp

lemma scale_test:
  assumes "0 < d"
  shows "scale_den d t \<le> scale_num n t \<longleftrightarrow> (2 :: rat) powi (- t) \<le> of_nat n / of_nat d"
proof -
  have p: "(0 :: rat) < of_nat (scale_den d t)" using assms by (simp add: scale_pos)
  have "scale_den d t \<le> scale_num n t \<longleftrightarrow>
      (1 :: rat) \<le> of_nat (scale_num n t) / of_nat (scale_den d t)"
    using p by (simp add: le_divide_eq)
  also have "\<dots> \<longleftrightarrow> (1 :: rat) \<le> of_nat n / of_nat d * 2 powi t"
    by (simp only: scale_ratio [OF assms])
  also have "\<dots> \<longleftrightarrow> (2 :: rat) powi (- t) \<le> of_nat n / of_nat d"
    by (simp add: power_int_minus field_simps)
  finally show ?thesis .
qed

lemma powi_low:
  assumes "0 < b" "2 ^ (b - 1) \<le> (n :: nat)"
  shows "(2 :: rat) powi (int b - 1) \<le> of_nat n"
proof -
  have e: "int b - 1 = int (b - 1)" using assms(1) by simp
  have "(of_nat (2 ^ (b - 1)) :: rat) \<le> of_nat n" using assms(2) by (simp only: of_nat_le_iff)
  then have "(2 :: rat) ^ (b - 1) \<le> of_nat n" by simp
  then show ?thesis unfolding e powi_nat .
qed

lemma powi_up:
  assumes "(n :: nat) < 2 ^ b"
  shows "(of_nat n :: rat) < 2 powi int b"
proof -
  have "(of_nat n :: rat) < of_nat (2 ^ b)" using assms by (simp only: of_nat_less_iff)
  then have "(of_nat n :: rat) < 2 ^ b" by simp
  then show ?thesis unfolding powi_nat .
qed

lemma ilog2_bounds:
  assumes "0 < n" "0 < d"
  shows "(2 :: rat) powi ilog2 n d \<le> of_nat n / of_nat d"
    and "(of_nat n :: rat) / of_nat d < 2 powi (ilog2 n d + 1)"
proof -
  define l where "l = int (bitlen n) - int (bitlen d)"
  define x :: rat where "x = of_nat n / of_nat d"
  have bn: "2 ^ (bitlen n - 1) \<le> n" "n < 2 ^ bitlen n" using bitlen_bounds [OF assms(1)] by simp_all
  have bd: "2 ^ (bitlen d - 1) \<le> d" "d < 2 ^ bitlen d" using bitlen_bounds [OF assms(2)] by simp_all
  have pn: "0 < bitlen n" using assms(1) by (subst bitlen.simps) simp
  have pd: "0 < bitlen d" using assms(2) by (subst bitlen.simps) simp
  have D: "(0 :: rat) < of_nat d" using assms by simp
  have n1: "(2 :: rat) powi (int (bitlen n) - 1) \<le> of_nat n" by (rule powi_low [OF pn bn(1)])
  have n2: "(of_nat n :: rat) < 2 powi int (bitlen n)" by (rule powi_up [OF bn(2)])
  have d1: "(2 :: rat) powi (int (bitlen d) - 1) \<le> of_nat d" by (rule powi_low [OF pd bd(1)])
  have d2: "(of_nat d :: rat) < 2 powi int (bitlen d)" by (rule powi_up [OF bd(2)])
  have up: "x < 2 powi (l + 1)"
  proof -
    have "(of_nat n :: rat) < 2 powi int (bitlen n)" by (rule n2)
    also have "\<dots> = 2 powi (l + 1) * 2 powi (int (bitlen d) - 1)"
      by (simp add: l_def power_int_add [symmetric])
    also have "\<dots> \<le> 2 powi (l + 1) * of_nat d"
      using d1 by (intro mult_left_mono) simp_all
    finally show ?thesis using D by (simp add: x_def field_simps)
  qed
  have lo: "2 powi (l - 1) < x"
  proof -
    have "(2 :: rat) powi (l - 1) * of_nat d < 2 powi (l - 1) * 2 powi int (bitlen d)"
      using d2 by (intro mult_strict_left_mono) simp_all
    also have "\<dots> = 2 powi ((l - 1) + int (bitlen d))"
      by (rule power_int_add [symmetric]) simp
    also have "(l - 1) + int (bitlen d) = int (bitlen n) - 1"
      by (simp add: l_def)
    also have "(2 :: rat) powi (int (bitlen n) - 1) \<le> of_nat n" by (rule n1)
    finally show ?thesis using D by (simp add: x_def field_simps)
  qed
  have t: "scale_den d (- l) \<le> scale_num n (- l) \<longleftrightarrow> 2 powi l \<le> x"
    using scale_test [OF assms(2), of "- l" n] by (simp add: x_def)
  have v: "ilog2 n d = (if 2 powi l \<le> x then l else l - 1)"
    by (simp add: ilog2_def ilog2_from_def l_def [symmetric] t)
  show "(2 :: rat) powi ilog2 n d \<le> of_nat n / of_nat d"
    using lo by (simp add: v x_def [symmetric])
  show "(of_nat n :: rat) / of_nat d < 2 powi (ilog2 n d + 1)"
    using up by (auto simp add: v x_def [symmetric])
qed

subsection \<open>The fields of a packed double\<close>

lemma dfrac_unat: "dfrac d = unat d mod 2 ^ 52"
proof -
  have m: "(0xFFFFFFFFFFFFF :: double) = mask 52" by (simp add: mask_eq_exp_minus_1)
  have "dfrac d = unat (take_bit 52 d)" by (simp only: dfrac_def m flip: take_bit_eq_mask)
  also have "\<dots> = take_bit 52 (unat d)" by (simp only: unsigned_take_bit_eq)
  also have "\<dots> = unat d mod 2 ^ 52" by (simp only: take_bit_eq_mod)
  finally show ?thesis .
qed

lemma dexp_unat: "dexp d = unat d div 2 ^ 52 mod 2 ^ 11"
proof -
  have m: "(0x7FF :: double) = mask 11" by (simp add: mask_eq_exp_minus_1)
  have t: "take_bit LENGTH(64) (unat d) = unat d"
    using unsigned_less [of d] by (simp only: take_bit_nat_eq_self_iff)
  have "dexp d = unat (take_bit 11 (drop_bit 52 d))" by (simp only: dexp_def m flip: take_bit_eq_mask)
  also have "\<dots> = take_bit 11 (drop_bit 52 (unat d))"
    by (simp only: unsigned_take_bit_eq unsigned_drop_bit_eq t)
  also have "\<dots> = unat d div 2 ^ 52 mod 2 ^ 11" by (simp only: take_bit_eq_mod drop_bit_eq_div)
  finally show ?thesis .
qed

lemma dsign_unat: "dsign d \<longleftrightarrow> 2 ^ 63 \<le> unat d"
proof -
  have "dsign d \<longleftrightarrow> bit (unat d) 63" by (simp add: dsign_def bit_unsigned_iff)
  also have "\<dots> \<longleftrightarrow> odd (unat d div 2 ^ 63)" by (simp only: bit_iff_odd)
  also have "\<dots> \<longleftrightarrow> 2 ^ 63 \<le> unat d"
  proof (cases "2 ^ 63 \<le> unat d")
    case True
    have "unat d < 2 ^ 64" using unsigned_less [of d] by simp
    then have "(unat d - 2 ^ 63) div 2 ^ 63 = 0" using True by (intro div_less) simp
    then have "unat d div 2 ^ 63 = 1" using True by (subst le_div_geq) simp_all
    then show ?thesis using True by (simp only: simp_thms) simp
  next
    case False
    then have "unat d div 2 ^ 63 = 0" by (intro div_less) simp
    then show ?thesis using False by (simp only: simp_thms) simp
  qed
  finally show ?thesis .
qed

lemma or_sign:
  assumes "bits < 2 ^ 63"
  shows "(2 ^ 63 :: nat) OR bits = 2 ^ 63 + bits"
proof (rule disjunctive_add [symmetric])
  fix n
  show "\<not> bit (2 ^ 63 :: nat) n \<or> \<not> bit bits n"
  proof (cases "n = 63")
    case True
    have "bits div 2 ^ 63 = 0" using assms by (rule div_less)
    then show ?thesis by (simp only: True bit_iff_odd) simp
  next
    case False
    then show ?thesis by (simp only: bit_exp_iff) simp
  qed
qed

lemma unat_pack:
  assumes "bits < 2047 * 2 ^ 52"
  shows "unat (pack s bits) = (if s then 2 ^ 63 else 0) + bits"
proof -
  have b: "bits < 2 ^ 63" using assms by simp
  have p: "pack s bits = sign_bit s OR of_nat bits" for s using assms by (simp add: pack_def)
  have u: "unat (of_nat bits :: double) = bits"
    using b by (simp only: unat_of_nat) simp
  have t: "unat (sign_bit True) = 2 ^ 63" by (simp add: sign_bit_def)
  have f: "unat (sign_bit False) = 0" by (simp add: sign_bit_def)
  have "unat (pack True bits) = 2 ^ 63 OR bits" by (simp only: p unsigned_or_eq u t)
  then have 1: "unat (pack True bits) = 2 ^ 63 + bits" by (simp only: or_sign [OF b])
  have "unat (pack False bits) = 0 OR bits" by (simp only: p unsigned_or_eq u f)
  then have 2: "unat (pack False bits) = bits" by simp
  show ?thesis by (cases s) (simp_all only: 1 2 if_True if_False add_0)
qed

lemma pack_fields:
  assumes "bits < 2047 * 2 ^ 52"
  shows "dsign (pack s bits) = s"
    and "dexp (pack s bits) = bits div 2 ^ 52"
    and "dfrac (pack s bits) = bits mod 2 ^ 52"
proof -
  have b: "bits < 2 ^ 63" using assms by simp
  have e: "bits div 2 ^ 52 < 2 ^ 11"
    using assms by (simp add: less_mult_imp_div_less)
  have S: "(2 :: nat) ^ 63 = 2 ^ 11 * 2 ^ 52" by (simp only: power_add [symmetric]) simp
  show "dsign (pack s bits) = s"
    using b by (simp only: dsign_unat unat_pack [OF assms]) (cases s; simp)
  have "dexp (pack True bits) = (2 ^ 11 + bits div 2 ^ 52) mod 2 ^ 11"
    by (simp only: dexp_unat unat_pack [OF assms] if_True S) (simp only: div_mult_self3 [of "2 ^ 52" "2 ^ 11" bits] power_not_zero zero_neq_numeral not_False_eq_True)
  also have "\<dots> = bits div 2 ^ 52" using e by (simp only: mod_add_self1) (simp only: mod_less)
  finally have 1: "dexp (pack True bits) = bits div 2 ^ 52" .
  have "dexp (pack False bits) = (bits div 2 ^ 52) mod 2 ^ 11"
    by (simp only: dexp_unat unat_pack [OF assms] if_False add_0)
  also have "\<dots> = bits div 2 ^ 52" using e by (simp only: mod_less)
  finally have 2: "dexp (pack False bits) = bits div 2 ^ 52" .
  show "dexp (pack s bits) = bits div 2 ^ 52" by (cases s) (simp_all only: 1 2)
  have 3: "dfrac (pack True bits) = bits mod 2 ^ 52"
    by (simp only: dfrac_unat unat_pack [OF assms] if_True S) (simp only: mod_mult_self3)
  have 4: "dfrac (pack False bits) = bits mod 2 ^ 52"
    by (simp only: dfrac_unat unat_pack [OF assms] if_False add_0)
  show "dfrac (pack s bits) = bits mod 2 ^ 52" by (cases s) (simp_all only: 3 4)
qed

lemma pack_mant_expo:
  assumes "bits < 2047 * 2 ^ 52"
  shows "mant (pack s bits) = (if bits < 2 ^ 52 then bits else 2 ^ 52 + bits mod 2 ^ 52)"
    and "expo (pack s bits) = (if bits < 2 ^ 52 then - 1074 else int (bits div 2 ^ 52) - 1075)"
proof -
  have z: "bits div 2 ^ 52 = 0 \<longleftrightarrow> bits < 2 ^ 52" by (simp only: div_eq_0_iff) simp
  have m: "bits < 2 ^ 52 \<Longrightarrow> bits mod 2 ^ 52 = bits" by (rule mod_less)
  show "mant (pack s bits) = (if bits < 2 ^ 52 then bits else 2 ^ 52 + bits mod 2 ^ 52)"
  proof (cases "bits < 2 ^ 52")
    case True
    show ?thesis
      by (simp only: mant_def pack_fields [OF assms] z) (simp only: True if_True m [OF True])
  next
    case False
    show ?thesis
      by (simp only: mant_def pack_fields [OF assms] z) (simp only: False if_False)
  qed
  show "expo (pack s bits) = (if bits < 2 ^ 52 then - 1074 else int (bits div 2 ^ 52) - 1075)"
    by (simp only: expo_def pack_fields [OF assms] z)
qed

lemma powi_Suc: "(2 :: rat) powi (k + 1) = 2 powi k * 2"
  by (subst power_int_add) simp_all

lemma pack_round:
  assumes "K * 2 ^ 52 + r < 2047 * 2 ^ 52" "r \<le> 2 ^ 53" "K = 0 \<or> 2 ^ 52 \<le> r"
  shows "(of_nat (mant (pack s (K * 2 ^ 52 + r))) :: rat) * 2 powi expo (pack s (K * 2 ^ 52 + r)) =
         of_nat r * 2 powi (int K - 1074)"
    and "even (mant (pack s (K * 2 ^ 52 + r))) \<longleftrightarrow> even r"
proof -
  define bits where "bits = K * 2 ^ 52 + r"
  have a: "bits < 2047 * 2 ^ 52" using assms(1) by (simp only: bits_def)
  note me = pack_mant_expo [OF a, of s]
  consider (sub) "r < 2 ^ 52" | (norm) "2 ^ 52 \<le> r" "r < 2 ^ 53" | (carry) "r = 2 ^ 53"
    using assms(2) by (cases "r < 2 ^ 52"; cases "r = 2 ^ 53") simp_all
  then have "(of_nat (mant (pack s bits)) :: rat) * 2 powi expo (pack s bits) =
         of_nat r * 2 powi (int K - 1074) \<and> (even (mant (pack s bits)) \<longleftrightarrow> even r)"
  proof cases
    case sub
    with assms(3) have K: "K = 0" by simp
    have b: "bits = r" by (simp add: bits_def K)
    have lt: "bits < 2 ^ 52" using sub by (simp only: b)
    have "(of_nat (mant (pack s bits)) :: rat) * 2 powi expo (pack s bits) =
        of_nat bits * 2 powi (- 1074)"
      by (simp only: me lt if_True)
    moreover have "int K - 1074 = - 1074" by (simp add: K)
    moreover have "mant (pack s bits) = bits" by (simp only: me lt if_True)
    ultimately show ?thesis by (simp only: b)
  next
    case norm
    define f where "f = r - 2 ^ 52"
    have f: "f < 2 ^ 52" "r = 2 ^ 52 + f" using norm by (simp_all add: f_def)
    have b: "bits = (K + 1) * 2 ^ 52 + f" by (simp add: bits_def f(2) algebra_simps)
    have d: "bits div 2 ^ 52 = K + 1" using f(1) by (simp only: b div_mult_self3) simp
    have m: "bits mod 2 ^ 52 = f" using f(1) by (simp only: b mod_mult_self3) simp
    have n: "\<not> bits < 2 ^ 52" by (simp add: b)
    have e: "int (K + 1) - 1075 = int K - 1074" by simp
    show ?thesis by (simp only: me n if_False d m e f(2))
  next
    case carry
    have b: "bits = (K + 2) * 2 ^ 52 + 0" by (simp add: bits_def carry algebra_simps)
    have d: "bits div 2 ^ 52 = K + 2" by (simp only: b div_mult_self3) simp
    have m: "bits mod 2 ^ 52 = 0" by (simp only: b mod_mult_self3) simp
    have n: "\<not> bits < 2 ^ 52" by (simp add: b)
    have e: "int (K + 2) - 1075 = (int K - 1074) + 1" by simp
    have "(of_nat (mant (pack s bits)) :: rat) * 2 powi expo (pack s bits) =
        of_nat (2 ^ 52) * 2 powi ((int K - 1074) + 1)"
      by (simp only: me n if_False d m e add_0_right)
    also have "\<dots> = of_nat (2 ^ 52) * (2 powi (int K - 1074) * 2)"
      by (simp only: powi_Suc)
    also have "\<dots> = of_nat (2 ^ 53) * 2 powi (int K - 1074)"
      by simp
    finally have 1: "(of_nat (mant (pack s bits)) :: rat) * 2 powi expo (pack s bits) =
        of_nat r * 2 powi (int K - 1074)" by (simp only: carry)
    have "mant (pack s bits) = 2 ^ 52" by (simp only: me n if_False m add_0_right)
    then have "even (mant (pack s bits)) \<longleftrightarrow> even r" by (simp only: carry) simp
    with 1 show ?thesis by (rule conjI)
  qed
  then show "(of_nat (mant (pack s (K * 2 ^ 52 + r))) :: rat) * 2 powi expo (pack s (K * 2 ^ 52 + r)) =
         of_nat r * 2 powi (int K - 1074)"
    and "even (mant (pack s (K * 2 ^ 52 + r))) \<longleftrightarrow> even r"
    by (simp_all only: bits_def)
qed

subsection \<open>The rounded multiple of the spacing\<close>

lemma powi_mono: "a \<le> b \<Longrightarrow> (2 :: rat) powi a \<le> 2 powi b"
  by (rule power_int_increasing) simp_all

lemma powi_pos: "(0 :: rat) < 2 powi a"
  by simp

lemma powi_add: "(2 :: rat) powi (a + b) = 2 powi a * 2 powi b"
  by (rule power_int_add) simp

lemma rounded_multiple:
  fixes n d :: nat and e :: int
  assumes n: "0 < n" and d: "0 < d"
  defines "Q \<equiv> (of_nat n :: rat) / of_nat d * 2 powi e"
  defines "k \<equiv> max (e + ilog2 n d) (- 1022)"
  defines "R \<equiv> rne (scale_num n (e + 52 - k)) (scale_den d (e + 52 - k))"
  shows "\<bar>of_nat R - Q * 2 powi (52 - k)\<bar> \<le> 1 / 2"
    and "\<bar>of_nat R - Q * 2 powi (52 - k)\<bar> = 1 / 2 \<Longrightarrow> even R"
    and "Q < 2 powi (k + 1)"
    and "2 powi k \<le> Q \<or> k = - 1022"
    and "R \<le> 2 ^ 53"
    and "nat (k + 1022) = 0 \<or> 2 ^ 52 \<le> R"
proof -
  define y where "y = Q * 2 powi (52 - k)"
  define t where "t = e + 52 - k"
  have sd: "0 < scale_den d t" using d by (rule scale_pos)
  have "(of_nat (scale_num n t) :: rat) / of_nat (scale_den d t) = of_nat n / of_nat d * 2 powi t"
    by (rule scale_ratio [OF d])
  also have "\<dots> = of_nat n / of_nat d * (2 powi e * 2 powi (52 - k))"
    by (simp only: t_def flip: powi_add) (simp add: algebra_simps)
  also have "\<dots> = y" by (simp add: y_def Q_def)
  finally have y: "(of_nat (scale_num n t) :: rat) / of_nat (scale_den d t) = y" .
  have R: "R = rne (scale_num n t) (scale_den d t)" by (simp only: R_def t_def)
  show 1: "\<bar>of_nat R - Q * 2 powi (52 - k)\<bar> \<le> 1 / 2"
    using rne_error(1) [OF sd, of "scale_num n t"] by (simp only: y R flip: y_def)
  show "\<bar>of_nat R - Q * 2 powi (52 - k)\<bar> = 1 / 2 \<Longrightarrow> even R"
    using rne_error(2) [OF sd, of "scale_num n t"] by (simp only: y R flip: y_def)
  have l: "(2 :: rat) powi ilog2 n d \<le> of_nat n / of_nat d"
    "(of_nat n :: rat) / of_nat d < 2 powi (ilog2 n d + 1)"
    by (rule ilog2_bounds [OF n d])+
  have "Q < 2 powi (ilog2 n d + 1) * 2 powi e"
    unfolding Q_def using l(2) by (rule mult_strict_right_mono) (rule powi_pos)
  also have "\<dots> = 2 powi (e + ilog2 n d + 1)"
    by (simp only: flip: powi_add) (simp add: algebra_simps)
  also have "\<dots> \<le> 2 powi (k + 1)" by (rule powi_mono) (simp add: k_def)
  finally show 3: "Q < 2 powi (k + 1)" .
  have "2 powi ilog2 n d * 2 powi e \<le> Q"
    unfolding Q_def using l(1) by (rule mult_right_mono) simp
  then have lo: "2 powi (e + ilog2 n d) \<le> Q"
    by (simp only: flip: powi_add) (simp add: algebra_simps)
  show 4: "2 powi k \<le> Q \<or> k = - 1022"
  proof (cases "- 1022 \<le> e + ilog2 n d")
    case True
    then have "k = e + ilog2 n d" by (simp add: k_def)
    with lo show ?thesis by simp
  next
    case False
    then have "k = - 1022" by (simp add: k_def)
    then show ?thesis by simp
  qed
  have "y < 2 powi (k + 1) * 2 powi (52 - k)"
    unfolding y_def using 3 by (rule mult_strict_right_mono) (rule powi_pos)
  also have "\<dots> = 2 powi 53" by (simp only: flip: powi_add) simp
  also have "\<dots> = 2 ^ 53" using powi_nat [of 53] by simp
  finally have yu: "y < 2 ^ 53" .
  have "of_nat R \<le> y + 1 / 2" using 1 unfolding y_def [symmetric] by linarith
  with yu have "(of_nat R :: rat) < of_nat (2 ^ 53 + 1)" by simp
  then have "R < 2 ^ 53 + 1" by (simp only: of_nat_less_iff)
  then show "R \<le> 2 ^ 53" by simp
  show "nat (k + 1022) = 0 \<or> 2 ^ 52 \<le> R"
  proof (cases "k = - 1022")
    case True
    then show ?thesis by simp
  next
    case False
    with 4 have "2 powi k \<le> Q" by simp
    then have "2 powi k * 2 powi (52 - k) \<le> y"
      unfolding y_def by (rule mult_right_mono) simp
    moreover have "(2 :: rat) powi k * 2 powi (52 - k) = 2 powi 52"
      by (simp only: flip: powi_add) simp
    moreover have "(2 :: rat) powi 52 = 2 ^ 52" using powi_nat [of 52] by simp
    ultimately have yl: "2 ^ 52 \<le> y" by simp
    have "y - 1 / 2 \<le> of_nat R" using 1 unfolding y_def [symmetric] by linarith
    with yl have "(of_nat (2 ^ 52 - 1) :: rat) < of_nat R" by simp
    then have "2 ^ 52 - 1 < R" by (simp only: of_nat_less_iff)
    then show ?thesis by simp
  qed
qed

lemma powi_less_cancel: "(2 :: rat) powi a \<le> x \<Longrightarrow> x < 2 powi b \<Longrightarrow> a < b"
proof (rule ccontr)
  assume a: "(2 :: rat) powi a \<le> x" "x < 2 powi b" "\<not> a < b"
  then have "(2 :: rat) powi b \<le> 2 powi a" by (intro powi_mono) simp
  with a show False by simp
qed

lemma round_double_bits:
  fixes n d :: nat and e :: int
  assumes n: "0 < n" and d: "0 < d"
  defines "Q \<equiv> (of_nat n :: rat) / of_nat d * 2 powi e"
  defines "k \<equiv> max (e + ilog2 n d) (- 1022)"
  defines "R \<equiv> rne (scale_num n (e + 52 - k)) (scale_den d (e + 52 - k))"
  assumes fin: "Q < 2 powi 1024 - 2 powi 970"
  shows "nat (k + 1022) * 2 ^ 52 + R < 2047 * 2 ^ 52"
proof -
  note rm = rounded_multiple [OF n d, of e, folded Q_def k_def R_def]
  have Q: "Q < 2 powi 1024" using fin powi_pos [of 970] by linarith
  have k: "k < 1024"
  proof (cases "k = - 1022")
    case True
    then show ?thesis by simp
  next
    case False
    with rm(4) have "2 powi k \<le> Q" by simp
    then show ?thesis using Q by (rule powi_less_cancel)
  qed
  show ?thesis
  proof (cases "k = 1023")
    case True
    have "Q * 2 powi (52 - k) < (2 powi 1024 - 2 powi 970) * 2 powi (52 - k)"
      using fin by (rule mult_strict_right_mono) (rule powi_pos)
    also have "\<dots> = 2 powi 1024 * 2 powi (- 971) - 2 powi 970 * 2 powi (- 971)"
      by (simp only: True left_diff_distrib) simp
    also have "\<dots> = 2 powi 53 - 2 powi (- 1)"
      by (simp only: flip: powi_add) simp
    also have "\<dots> = 2 ^ 53 - 1 / 2" using powi_nat [of 53] by (simp add: power_int_minus)
    finally have y: "Q * 2 powi (52 - k) < 2 ^ 53 - 1 / 2" .
    have "of_nat R \<le> Q * 2 powi (52 - k) + 1 / 2" using rm(1) by linarith
    with y have "(of_nat R :: rat) < of_nat (2 ^ 53)" by simp
    then have "R < 2 ^ 53" by (simp only: of_nat_less_iff)
    moreover have "nat (k + 1022) = 2045" by (simp add: True)
    ultimately show ?thesis by simp
  next
    case False
    with k have "nat (k + 1022) \<le> 2044" by simp
    with rm(5) show ?thesis by simp
  qed
qed

lemma round_double_correct:
  fixes n d :: nat and e :: int
  assumes n: "0 < n" and d: "0 < d"
  defines "Q \<equiv> (of_nat n :: rat) / of_nat d * 2 powi e"
  defines "k \<equiv> max (e + ilog2 n d) (- 1022)"
  defines "R \<equiv> rne (scale_num n (e + 52 - k)) (scale_den d (e + 52 - k))"
  assumes fin: "Q < 2 powi 1024 - 2 powi 970"
  shows "dsign (round_double s n d e) = s"
    and "dexp (round_double s n d e) < 2047"
    and "(of_nat (mant (round_double s n d e)) :: rat) * 2 powi expo (round_double s n d e) =
           of_nat R * 2 powi (k - 52)"
    and "even (mant (round_double s n d e)) \<longleftrightarrow> even R"
proof -
  note rm = rounded_multiple [OF n d, of e, folded Q_def k_def R_def]
  define K where "K = nat (k + 1022)"
  have b: "K * 2 ^ 52 + R < 2047 * 2 ^ 52"
    using round_double_bits [OF n d, of e] fin by (simp only: Q_def k_def R_def K_def)
  have r: "round_double s n d e = pack s (K * 2 ^ 52 + R)"
    using n by (simp add: round_double_def round_in_binade_def k_def R_def K_def)
  have "- 1022 \<le> k" by (simp add: k_def)
  then have K: "int K - 1074 = k - 52" by (simp add: K_def)
  have z: "K = 0 \<or> 2 ^ 52 \<le> R" using rm(6) by (simp only: K_def)
  show "dsign (round_double s n d e) = s" by (simp only: r pack_fields(1) [OF b])
  have "(K * 2 ^ 52 + R) div 2 ^ 52 < 2047"
    using b by (simp add: less_mult_imp_div_less)
  then show "dexp (round_double s n d e) < 2047" by (simp only: r pack_fields(2) [OF b])
  show "(of_nat (mant (round_double s n d e)) :: rat) * 2 powi expo (round_double s n d e) =
           of_nat R * 2 powi (k - 52)"
    by (simp only: r pack_round(1) [OF b rm(5) z] K)
  show "even (mant (round_double s n d e)) \<longleftrightarrow> even R"
    by (simp only: r pack_round(2) [OF b rm(5) z])
qed

lemma round_double_overflow:
  fixes n d :: nat and e :: int
  assumes n: "0 < n" and d: "0 < d"
    and inf: "2 powi 1024 - 2 powi 970 \<le> (of_nat n :: rat) / of_nat d * 2 powi e"
  shows "round_double s n d e = d_inf s"
proof -
  define Q where "Q = (of_nat n :: rat) / of_nat d * 2 powi e"
  define k where "k = max (e + ilog2 n d) (- 1022)"
  define R where "R = rne (scale_num n (e + 52 - k)) (scale_den d (e + 52 - k))"
  note rm = rounded_multiple [OF n d, of e, folded Q_def k_def R_def]
  define K where "K = nat (k + 1022)"
  have r: "round_double s n d e = pack s (K * 2 ^ 52 + R)"
    using n by (simp add: round_double_def round_in_binade_def k_def R_def K_def)
  have "(2 :: rat) powi 1023 + 2 powi 970 \<le> 2 powi 1023 + 2 powi 1023"
    by (intro add_left_mono powi_mono) simp
  also have "\<dots> = 2 powi (1023 + 1)" by (simp only: powi_Suc)
  finally have "(2 :: rat) powi 1023 \<le> 2 powi 1024 - 2 powi 970" by simp
  with inf have "2 powi 1023 \<le> Q" unfolding Q_def by linarith
  then have "1023 < k + 1" using rm(3) by (rule powi_less_cancel)
  then have k: "1023 \<le> k" by simp
  have "2047 * 2 ^ 52 \<le> K * 2 ^ 52 + R"
  proof (cases "k = 1023")
    case True
    have "(2 :: rat) ^ 53 - 1 / 2 = 2 powi 53 - 2 powi (- 1)"
      using powi_nat [of 53] by (simp add: power_int_minus)
    also have "\<dots> = 2 powi 1024 * 2 powi (- 971) - 2 powi 970 * 2 powi (- 971)"
      by (simp only: flip: powi_add) simp
    also have "\<dots> = (2 powi 1024 - 2 powi 970) * 2 powi (52 - k)"
      by (simp only: True left_diff_distrib) simp
    also have "\<dots> \<le> Q * 2 powi (52 - k)"
      using inf unfolding Q_def [symmetric] by (rule mult_right_mono) simp
    finally have y: "2 ^ 53 - 1 / 2 \<le> Q * 2 powi (52 - k)" .
    have R1: "Q * 2 powi (52 - k) - 1 / 2 \<le> of_nat R" using rm(1) by linarith
    have "R \<noteq> 2 ^ 53 - 1"
    proof
      assume e: "R = 2 ^ 53 - 1"
      then have "(of_nat R :: rat) = 2 ^ 53 - 1" by simp
      with y rm(1) have "\<bar>of_nat R - Q * 2 powi (52 - k)\<bar> = 1 / 2" by linarith
      then have "even R" by (rule rm(2))
      with e show False by simp
    qed
    moreover have "(of_nat (2 ^ 53 - 2) :: rat) < of_nat R" using y R1 by simp
    then have "2 ^ 53 - 2 < R" by (simp only: of_nat_less_iff)
    ultimately have "2 ^ 53 \<le> R" by simp
    moreover have "K = 2045" by (simp add: K_def True)
    ultimately show ?thesis by simp
  next
    case False
    with k have "2046 \<le> K" by (simp add: K_def)
    moreover from this rm(6) have "2 ^ 52 \<le> R" unfolding K_def by linarith
    ultimately show ?thesis by simp
  qed
  then show ?thesis by (simp add: r pack_def)
qed

subsection \<open>No double is nearer\<close>

lemma dfrac_less: "dfrac d < 2 ^ 52"
  by (simp only: dfrac_unat) simp

lemma mant_less: "mant d < 2 ^ 53"
  using dfrac_less [of d] by (simp add: mant_def)

lemma expo_ge: "- 1074 \<le> expo d"
  by (simp add: expo_def)

lemma abs_dval: "\<bar>dval d\<bar> = of_nat (mant d) * 2 powi expo d"
  by (simp add: dval_def smant_def abs_mult)

lemma grid_member:
  assumes "2 powi k \<le> \<bar>dval x\<bar> \<or> k = - 1022"
  shows "\<exists>M :: nat. \<bar>dval x\<bar> = of_nat M * 2 powi (k - 52)"
proof -
  have e: "k - 52 \<le> expo x"
  proof (cases "k = - 1022")
    case True
    then show ?thesis using expo_ge [of x] by simp
  next
    case False
    with assms have "2 powi k \<le> (of_nat (mant x) :: rat) * 2 powi expo x" by (simp add: abs_dval)
    moreover have "(of_nat (mant x) :: rat) * 2 powi expo x < 2 powi 53 * 2 powi expo x"
    proof (rule mult_strict_right_mono)
      have "(of_nat (mant x) :: rat) < of_nat (2 ^ 53)"
        using mant_less [of x] by (simp only: of_nat_less_iff)
      then show "(of_nat (mant x) :: rat) < 2 powi 53" using powi_nat [of 53] by simp
    qed (rule powi_pos)
    moreover have "(2 :: rat) powi 53 * 2 powi expo x = 2 powi (53 + expo x)"
      by (simp only: powi_add)
    ultimately have "k < 53 + expo x" by (simp only: powi_less_cancel)
    then show ?thesis by simp
  qed
  define j where "j = nat (expo x - (k - 52))"
  have j: "expo x = int j + (k - 52)" using e by (simp add: j_def)
  have "\<bar>dval x\<bar> = of_nat (mant x) * (2 powi int j * 2 powi (k - 52))"
    by (simp only: abs_dval j powi_add)
  also have "\<dots> = of_nat (mant x * 2 ^ j) * 2 powi (k - 52)"
    by (simp only: powi_nat) simp
  finally show ?thesis by (rule exI)
qed

lemma nearest_int:
  fixes y :: rat
  assumes "\<bar>of_nat R - y\<bar> \<le> 1 / 2"
  shows "\<bar>of_nat R - y\<bar> \<le> \<bar>of_int N - y\<bar>"
    and "N \<noteq> int R \<Longrightarrow> \<bar>of_int N - y\<bar> = \<bar>of_nat R - y\<bar> \<Longrightarrow> \<bar>of_nat R - y\<bar> = 1 / 2"
proof -
  have d: "1 \<le> \<bar>(of_int N :: rat) - of_nat R\<bar>" if "N \<noteq> int R"
  proof -
    have "1 \<le> \<bar>N - int R\<bar>" using that by simp
    then have "(of_int 1 :: rat) \<le> of_int \<bar>N - int R\<bar>" by (simp only: of_int_le_iff)
    then show ?thesis by simp
  qed
  show "\<bar>of_nat R - y\<bar> \<le> \<bar>of_int N - y\<bar>"
  proof (cases "N = int R")
    case True
    then show ?thesis by simp
  next
    case False
    from d [OF this] assms show ?thesis by linarith
  qed
  show "\<bar>of_int N - y\<bar> = \<bar>of_nat R - y\<bar> \<Longrightarrow> \<bar>of_nat R - y\<bar> = 1 / 2" if "N \<noteq> int R"
    using d [OF that] assms by linarith
qed

lemma nearest_core:
  fixes Q g y w :: rat and R :: nat
  assumes g: "0 < g" and Qy: "Q = y * g" and R: "\<bar>of_nat R - y\<bar> \<le> 1 / 2"
    and w: "(\<exists>N :: int. w = of_int N * g) \<or> (w < 2 ^ 52 * g \<and> 2 ^ 52 * g \<le> Q)"
  shows "\<bar>of_nat R * g - Q\<bar> \<le> \<bar>w - Q\<bar>"
    and "w \<noteq> of_nat R * g \<Longrightarrow> \<bar>w - Q\<bar> = \<bar>of_nat R * g - Q\<bar> \<Longrightarrow> \<bar>of_nat R - y\<bar> = 1 / 2"
proof -
  have d: "\<bar>a * g - Q\<bar> = \<bar>a - y\<bar> * g" for a
  proof -
    have "a * g - Q = (a - y) * g" by (simp add: Qy left_diff_distrib)
    then show ?thesis using g by (simp add: abs_mult)
  qed
  from w have "\<bar>of_nat R * g - Q\<bar> \<le> \<bar>w - Q\<bar> \<and>
    (w \<noteq> of_nat R * g \<longrightarrow> \<bar>w - Q\<bar> = \<bar>of_nat R * g - Q\<bar> \<longrightarrow> \<bar>of_nat R - y\<bar> = 1 / 2)"
  proof
    assume "\<exists>N :: int. w = of_int N * g"
    then obtain N :: int where N: "w = of_int N * g" ..
    have 1: "\<bar>of_nat R - y\<bar> * g \<le> \<bar>of_int N - y\<bar> * g"
      using nearest_int(1) [OF R, of N] g by (intro mult_right_mono) simp_all
    have 2: "\<bar>of_nat R - y\<bar> = 1 / 2"
      if "w \<noteq> of_nat R * g" "\<bar>w - Q\<bar> = \<bar>of_nat R * g - Q\<bar>"
    proof -
      from that(1) have "N \<noteq> int R" by (auto simp: N)
      moreover from that(2) have "\<bar>of_int N - y\<bar> = \<bar>of_nat R - y\<bar>"
        using g by (simp add: N d)
      ultimately show ?thesis by (rule nearest_int(2) [OF R])
    qed
    from 1 2 show ?thesis by (simp add: N d)
  next
    assume o: "w < 2 ^ 52 * g \<and> 2 ^ 52 * g \<le> Q"
    have "\<bar>of_nat R - y\<bar> * g \<le> \<bar>of_int (2 ^ 52) - y\<bar> * g"
      using nearest_int(1) [OF R, of "2 ^ 52"] g by (intro mult_right_mono) simp_all
    also have "\<dots> = \<bar>2 ^ 52 * g - Q\<bar>" by (simp add: d)
    also have "\<dots> < \<bar>w - Q\<bar>" using o by linarith
    finally show ?thesis by (simp add: d)
  qed
  then show "\<bar>of_nat R * g - Q\<bar> \<le> \<bar>w - Q\<bar>"
    and "w \<noteq> of_nat R * g \<Longrightarrow> \<bar>w - Q\<bar> = \<bar>of_nat R * g - Q\<bar> \<Longrightarrow> \<bar>of_nat R - y\<bar> = 1 / 2"
    by simp_all
qed


lemma is_finite_dexp: "is_finite d \<longleftrightarrow> dexp d \<noteq> 2047"
  by (auto simp: is_finite_def is_nan_def is_inf_def)

lemma dval_sign: "dval d = (if dsign d then - 1 else 1) * (of_nat (mant d) * 2 powi expo d)"
  by (simp add: dval_def smant_def)

lemma round_double_nearest:
  fixes n d :: nat and e :: int
  assumes n: "0 < n" and d: "0 < d"
    and fin: "(of_nat n :: rat) / of_nat d * 2 powi e < 2 powi 1024 - 2 powi 970"
  shows "nearest ((if s then - 1 else 1) * (of_nat n / of_nat d * 2 powi e)) (round_double s n d e)"
proof -
  define Q where "Q = (of_nat n :: rat) / of_nat d * 2 powi e"
  define k where "k = max (e + ilog2 n d) (- 1022)"
  define R where "R = rne (scale_num n (e + 52 - k)) (scale_den d (e + 52 - k))"
  define r where "r = round_double s n d e"
  define g :: rat where "g = 2 powi (k - 52)"
  define y where "y = Q * 2 powi (52 - k)"
  define \<sigma> :: rat where "\<sigma> = (if s then - 1 else 1)"
  note rm = rounded_multiple [OF n d, of e, folded Q_def k_def R_def]
  note rc = round_double_correct [OF n d fin, of s, folded Q_def k_def R_def r_def]
  have g: "0 < g" by (simp add: g_def)
  have "2 powi (52 - k) * g = 2 powi ((52 - k) + (k - 52))" by (simp only: g_def powi_add)
  then have "2 powi (52 - k) * g = 1" by simp
  then have Qy: "Q = y * g" by (simp add: y_def)
  have Ry: "\<bar>of_nat R - y\<bar> \<le> 1 / 2" using rm(1) by (simp only: y_def)
  have tie: "\<bar>of_nat R - y\<bar> = 1 / 2 \<Longrightarrow> even (mant r)"
    using rm(2) by (simp only: y_def rc(4))
  have s2: "\<sigma> * \<sigma> = 1" "\<bar>\<sigma>\<bar> = 1" by (simp_all add: \<sigma>_def)
  have vr: "dval r = \<sigma> * (of_nat R * g)"
    by (simp only: dval_sign [of r] rc(1) rc(3) \<sigma>_def g_def)
  have fr: "is_finite r" using rc(2) by (simp add: is_finite_dexp)
  have p52: "(2 :: rat) ^ 52 * g = 2 powi k"
  proof -
    have "(2 :: rat) ^ 52 * g = 2 powi 52 * 2 powi (k - 52)" using powi_nat [of 52] by (simp add: g_def)
    also have "\<dots> = 2 powi (52 + (k - 52))" by (simp only: powi_add)
    finally show ?thesis by simp
  qed
  have main: "\<bar>dval r - \<sigma> * Q\<bar> \<le> \<bar>dval x - \<sigma> * Q\<bar> \<and>
      (dval x \<noteq> dval r \<and> \<bar>dval x - \<sigma> * Q\<bar> = \<bar>dval r - \<sigma> * Q\<bar> \<longrightarrow> even (mant r))" for x
  proof -
    define w where "w = \<sigma> * dval x"
    have c: "\<bar>v - \<sigma> * Q\<bar> = \<bar>\<sigma> * v - Q\<bar>" for v
    proof -
      have "\<sigma> * v - Q = \<sigma> * (v - \<sigma> * Q)" using s2(1) by (simp add: algebra_simps flip: mult.assoc)
      then show ?thesis using s2(2) by (simp add: abs_mult)
    qed
    have cr: "\<sigma> * dval r = of_nat R * g" using s2(1) by (simp add: vr flip: mult.assoc)
    have ne: "dval x \<noteq> dval r \<longleftrightarrow> w \<noteq> of_nat R * g"
    proof -
      have "dval x = dval r \<longleftrightarrow> \<sigma> * dval x = \<sigma> * dval r" using s2(2) by auto
      then show ?thesis by (simp only: w_def cr)
    qed
    have wcases: "(\<exists>N :: int. w = of_int N * g) \<or> (w < 2 ^ 52 * g \<and> 2 ^ 52 * g \<le> Q)"
    proof (cases "2 powi k \<le> \<bar>dval x\<bar> \<or> k = - 1022")
      case True
      then obtain M :: nat where M: "\<bar>dval x\<bar> = of_nat M * g"
        using grid_member [of k x] by (auto simp: g_def)
      have "\<bar>w\<bar> = of_nat M * g" using s2(2) by (simp add: w_def abs_mult M)
      then have "w = of_int (int M) * g \<or> w = of_int (- int M) * g" by (simp add: abs_if split: if_splits)
      then show ?thesis by blast
    next
      case False
      then have "\<bar>dval x\<bar> < 2 powi k" "k \<noteq> - 1022" by simp_all
      moreover from this rm(4) have "2 powi k \<le> Q" by simp
      moreover have "w \<le> \<bar>dval x\<bar>" by (cases s) (simp_all add: w_def \<sigma>_def)
      ultimately have "w < 2 ^ 52 * g \<and> 2 ^ 52 * g \<le> Q" unfolding p52 by linarith
      then show ?thesis by (rule disjI2)
    qed
    note nc = nearest_core [OF g Qy Ry wcases]
    show ?thesis
      using nc(1) nc(2) tie by (simp only: c cr ne flip: w_def) blast
  qed
  have "nearest (\<sigma> * Q) r"
    unfolding nearest_def using fr main by blast
  then show ?thesis by (simp only: \<sigma>_def Q_def r_def)
qed

lemma is_zero_mant: "is_zero d \<longleftrightarrow> mant d = 0"
  by (simp add: is_zero_def mant_def)

lemma d_zero_fields: "dsign (d_zero s) = s" "dexp (d_zero s) = 0" "dfrac (d_zero s) = 0"
  by (cases s; simp add: d_zero_def sign_bit_def dsign_def dexp_def dfrac_def)+

lemma dval_d_zero: "dval (d_zero s) = 0"
  by (simp add: dval_def smant_def mant_def d_zero_fields)

lemma nearest_zero: "nearest 0 (d_zero s)"
  by (simp add: nearest_def is_finite_dexp d_zero_fields dval_d_zero)

lemma threshold: "(2 :: rat) ^ 1024 - 2 ^ 970 = 2 powi 1024 - 2 powi 970"
  using powi_nat [of 1024] powi_nat [of 970] by simp

text \<open>The double that \<open>round_double\<close> gives, also for the numerator 0.\<close>

lemma round_double_rounds:
  fixes n d :: nat and e :: int
  assumes d: "0 < d"
    and fin: "(of_nat n :: rat) / of_nat d * 2 powi e < 2 ^ 1024 - 2 ^ 970"
  shows "nearest ((if s then - 1 else 1) * (of_nat n / of_nat d * 2 powi e)) (round_double s n d e)"
    and "dsign (round_double s n d e) = s"
proof -
  have "nearest ((if s then - 1 else 1) * (of_nat n / of_nat d * 2 powi e)) (round_double s n d e) \<and>
    dsign (round_double s n d e) = s"
  proof (cases "n = 0")
    case True
    then show ?thesis by (simp add: round_double_def nearest_zero d_zero_fields)
  next
    case False
    then have n: "0 < n" by simp
    from fin have f: "(of_nat n :: rat) / of_nat d * 2 powi e < 2 powi 1024 - 2 powi 970"
      by (simp only: threshold)
    from round_double_nearest [OF n d f] round_double_correct(1) [OF n d f]
    show ?thesis by (rule conjI)
  qed
  then show "nearest ((if s then - 1 else 1) * (of_nat n / of_nat d * 2 powi e)) (round_double s n d e)"
    and "dsign (round_double s n d e) = s"
    by simp_all
qed

subsection \<open>The four operations\<close>

text \<open>
  On finite operands each operation gives the double that IEEE-754 asks for: the exact sum,
  difference, product or quotient of the two values, rounded to nearest with ties to even,
  or the infinity when that is out of range.
\<close>

lemma ddiv_rounds:
  assumes a: "is_finite a" and b: "is_finite b" and z: "\<not> is_zero b"
    and fin: "\<bar>dval a / dval b\<bar> < 2 ^ 1024 - 2 ^ 970"
  shows "nearest (dval a / dval b) (ddiv nan a b)"
    and "dsign (ddiv nan a b) = (dsign a \<noteq> dsign b)"
proof -
  define Q where "Q = (of_nat (mant a) :: rat) / of_nat (mant b) * 2 powi (expo a - expo b)"
  have mb: "0 < mant b" using z by (simp add: is_zero_mant)
  have r: "ddiv nan a b = round_double (dsign a \<noteq> dsign b) (mant a) (mant b) (expo a - expo b)"
    using a b z by (simp add: ddiv_def is_finite_def)
  have "dval a / dval b =
      ((if dsign a then - 1 else 1) / (if dsign b then - 1 else 1)) *
      ((of_nat (mant a) * 2 powi expo a) / (of_nat (mant b) * 2 powi expo b))"
    by (simp only: dval_sign [of a] dval_sign [of b] times_divide_times_eq)
  also have "(of_nat (mant a) * 2 powi expo a) / (of_nat (mant b) * 2 powi expo b) = Q"
    by (simp add: Q_def power_int_diff)
  also have "((if dsign a then - 1 else 1) / (if dsign b then - 1 else 1) :: rat) =
      (if dsign a \<noteq> dsign b then - 1 else 1)"
    by simp
  finally have q: "dval a / dval b = (if dsign a \<noteq> dsign b then - 1 else 1) * Q" .
  have "0 \<le> Q" by (simp add: Q_def)
  then have "\<bar>dval a / dval b\<bar> = Q" by (simp add: q abs_mult)
  with fin have f: "Q < 2 ^ 1024 - 2 ^ 970" by simp
  from round_double_rounds [OF mb f [unfolded Q_def], of "dsign a \<noteq> dsign b"]
  show "nearest (dval a / dval b) (ddiv nan a b)"
    and "dsign (ddiv nan a b) = (dsign a \<noteq> dsign b)"
    by (simp_all only: r q Q_def)
qed

lemma dmul_rounds:
  assumes a: "is_finite a" and b: "is_finite b"
    and fin: "\<bar>dval a * dval b\<bar> < 2 ^ 1024 - 2 ^ 970"
  shows "nearest (dval a * dval b) (dmul nan a b)"
    and "dsign (dmul nan a b) = (dsign a \<noteq> dsign b)"
proof -
  define Q where "Q = (of_nat (mant a * mant b) :: rat) / of_nat 1 * 2 powi (expo a + expo b)"
  have r: "dmul nan a b = round_double (dsign a \<noteq> dsign b) (mant a * mant b) 1 (expo a + expo b)"
    using a b by (simp add: dmul_def is_finite_def)
  have "dval a * dval b =
      ((if dsign a then - 1 else 1) * (if dsign b then - 1 else 1)) *
      ((of_nat (mant a) * 2 powi expo a) * (of_nat (mant b) * 2 powi expo b))"
    by (simp only: dval_sign [of a] dval_sign [of b] mult_ac)
  also have "(of_nat (mant a) * 2 powi expo a) * (of_nat (mant b) * 2 powi expo b) = Q"
    by (simp add: Q_def powi_add)
  also have "((if dsign a then - 1 else 1) * (if dsign b then - 1 else 1) :: rat) =
      (if dsign a \<noteq> dsign b then - 1 else 1)"
    by simp
  finally have q: "dval a * dval b = (if dsign a \<noteq> dsign b then - 1 else 1) * Q" .
  have "0 \<le> Q" by (simp add: Q_def)
  then have "\<bar>dval a * dval b\<bar> = Q" by (simp add: q abs_mult)
  with fin have f: "Q < 2 ^ 1024 - 2 ^ 970" by simp
  from round_double_rounds [OF zero_less_one f [unfolded Q_def], of "dsign a \<noteq> dsign b"]
  show "nearest (dval a * dval b) (dmul nan a b)"
    and "dsign (dmul nan a b) = (dsign a \<noteq> dsign b)"
    by (simp_all only: r q Q_def)
qed

lemma dneg_fields:
  "dsign (dneg d) = (\<not> dsign d)" "dexp (dneg d) = dexp d" "dfrac (dneg d) = dfrac d"
proof -
  have c: "(0x8000000000000000 :: double) = push_bit 63 1" by simp
  have m: "(0xFFFFFFFFFFFFF :: double) = mask 52" "(0x7FF :: double) = mask 11"
    by (simp_all add: mask_eq_exp_minus_1)
  have n: "dneg d = d XOR push_bit 63 1" by (simp only: dneg_def c)
  show "dsign (dneg d) = (\<not> dsign d)"
    by (simp only: dsign_def n) (simp add: bit_simps)
  have "take_bit 11 (drop_bit 52 (d XOR push_bit 63 1)) = take_bit 11 (drop_bit 52 d)"
    by (rule bit_eqI) (auto simp: bit_simps)
  then show "dexp (dneg d) = dexp d"
    by (simp only: dexp_def n m flip: take_bit_eq_mask)
  have "take_bit 52 (d XOR push_bit 63 1) = take_bit 52 d"
    by (rule bit_eqI) (auto simp: bit_simps)
  then show "dfrac (dneg d) = dfrac d"
    by (simp only: dfrac_def n m flip: take_bit_eq_mask)
qed

lemma dneg_value: "is_finite (dneg d) = is_finite d" "dval (dneg d) = - dval d"
proof -
  show "is_finite (dneg d) = is_finite d" by (simp only: is_finite_dexp dneg_fields)
  have m: "mant (dneg d) = mant d" "expo (dneg d) = expo d"
    by (simp_all only: mant_def expo_def dneg_fields)
  have "smant (dneg d) = - smant d" by (simp add: smant_def m dneg_fields)
  then show "dval (dneg d) = - dval d" by (simp only: dval_def m of_int_minus mult_minus_left)
qed

lemma aligned_value:
  assumes "e \<le> expo a"
  shows "(of_int (aligned a e) :: rat) * 2 powi e = dval a"
proof -
  define j where "j = nat (expo a - e)"
  have j: "expo a = int j + e" using assms by (simp add: j_def)
  have "(of_int (aligned a e) :: rat) * 2 powi e = of_int (smant a) * (2 ^ j * 2 powi e)"
    by (simp add: aligned_def j_def)
  also have "\<dots> = of_int (smant a) * (2 powi int j * 2 powi e)" by (simp only: powi_nat)
  also have "\<dots> = dval a" by (simp only: dval_def j powi_add)
  finally show ?thesis .
qed

lemma dsum_rounds:
  assumes a: "is_finite a" and b: "is_finite b"
    and fin: "\<bar>dval a + dval b\<bar> < 2 ^ 1024 - 2 ^ 970"
  shows "nearest (dval a + dval b) (dsum a b)"
    and "dsign (dsum a b) = (if dval a + dval b = 0 then dsign a \<and> dsign b else dval a + dval b < 0)"
proof -
  define e where "e = min (expo a) (expo b)"
  define m where "m = aligned a e + aligned b e"
  define q where "q = dval a + dval b"
  have "(of_int m :: rat) * 2 powi e = of_int (aligned a e) * 2 powi e + of_int (aligned b e) * 2 powi e"
    by (simp add: m_def algebra_simps)
  also have "\<dots> = q"
    by (simp only: q_def aligned_value [of e a, OF min.cobounded1 [of "expo a" "expo b", folded e_def]]
        aligned_value [of e b, OF min.cobounded2 [of "expo a" "expo b", folded e_def]])
  finally have q: "q = of_int m * 2 powi e" by simp
  have q0: "q = 0 \<longleftrightarrow> m = 0" by (simp add: q)
  have "\<not> (2 :: rat) powi e < 0" using powi_pos [of e] by linarith
  then have qn: "q < 0 \<longleftrightarrow> m < 0" by (simp add: q mult_less_0_iff)
  have r: "dsum a b = round_sum (dsign a) (dsign b) m e"
    using a b by (simp add: dsum_def is_finite_def m_def e_def)
  have "nearest q (dsum a b) \<and> dsign (dsum a b) = (if q = 0 then dsign a \<and> dsign b else q < 0)"
  proof (cases "m = 0")
    case True
    then have "q = 0" by (simp only: q0)
    with True show ?thesis by (simp add: r round_sum_def nearest_zero d_zero_fields)
  next
    case False
    define Q where "Q = (of_nat (nat \<bar>m\<bar>) :: rat) / of_nat 1 * 2 powi e"
    have Q: "Q = \<bar>q\<bar>" by (simp add: Q_def q abs_mult)
    have s: "q = (if m < 0 then - 1 else 1) * Q" using qn unfolding Q by (cases "m < 0") simp_all
    have f: "Q < 2 ^ 1024 - 2 ^ 970" using fin by (simp only: Q q_def)
    have r': "dsum a b = round_double (m < 0) (nat \<bar>m\<bar>) 1 e"
      using False by (simp add: r round_sum_def)
    from round_double_rounds [OF zero_less_one f [unfolded Q_def], of "m < 0"]
    have "nearest q (dsum a b)" "dsign (dsum a b) = (m < 0)"
      by (simp_all only: r' s Q_def)
    then show ?thesis using False by (simp add: q0 qn)
  qed
  then show "nearest (dval a + dval b) (dsum a b)"
    and "dsign (dsum a b) = (if dval a + dval b = 0 then dsign a \<and> dsign b else dval a + dval b < 0)"
    by (simp_all only: q_def)
qed

lemma threshold_pos: "(0 :: rat) < 2 ^ 1024 - 2 ^ 970"
proof -
  have "(2 :: rat) ^ 970 < 2 ^ 1024" by (rule power_strict_increasing) simp_all
  then show ?thesis by simp
qed

lemma ddiv_overflow:
  assumes a: "is_finite a" and b: "is_finite b" and z: "\<not> is_zero b"
    and inf: "2 ^ 1024 - 2 ^ 970 \<le> \<bar>dval a / dval b\<bar>"
  shows "ddiv nan a b = d_inf (dsign a \<noteq> dsign b)"
proof -
  define Q where "Q = (of_nat (mant a) :: rat) / of_nat (mant b) * 2 powi (expo a - expo b)"
  have mb: "0 < mant b" using z by (simp add: is_zero_mant)
  have r: "ddiv nan a b = round_double (dsign a \<noteq> dsign b) (mant a) (mant b) (expo a - expo b)"
    using a b z by (simp add: ddiv_def is_finite_def)
  have "\<bar>dval a / dval b\<bar> = (of_nat (mant a) * 2 powi expo a) / (of_nat (mant b) * 2 powi expo b)"
    by (simp only: abs_divide abs_dval)
  also have "\<dots> = Q" by (simp add: Q_def power_int_diff)
  finally have q: "\<bar>dval a / dval b\<bar> = Q" .
  from inf threshold_pos have "0 < Q" unfolding q by linarith
  then have ma: "0 < mant a" by (cases "mant a = 0") (simp_all add: Q_def)
  from inf have "2 powi 1024 - 2 powi 970 \<le> Q" by (simp only: q threshold)
  then show ?thesis unfolding r Q_def by (rule round_double_overflow [OF ma mb])
qed

lemma dmul_overflow:
  assumes a: "is_finite a" and b: "is_finite b"
    and inf: "2 ^ 1024 - 2 ^ 970 \<le> \<bar>dval a * dval b\<bar>"
  shows "dmul nan a b = d_inf (dsign a \<noteq> dsign b)"
proof -
  define Q where "Q = (of_nat (mant a * mant b) :: rat) / of_nat 1 * 2 powi (expo a + expo b)"
  have r: "dmul nan a b = round_double (dsign a \<noteq> dsign b) (mant a * mant b) 1 (expo a + expo b)"
    using a b by (simp add: dmul_def is_finite_def)
  have "\<bar>dval a * dval b\<bar> = (of_nat (mant a) * 2 powi expo a) * (of_nat (mant b) * 2 powi expo b)"
    by (simp only: abs_mult abs_dval)
  also have "\<dots> = Q" by (simp add: Q_def powi_add)
  finally have q: "\<bar>dval a * dval b\<bar> = Q" .
  from inf threshold_pos have "0 < Q" unfolding q by linarith
  then have m: "0 < mant a * mant b" by (cases "mant a * mant b = 0") (simp_all add: Q_def)
  from inf have "2 powi 1024 - 2 powi 970 \<le> Q" by (simp only: q threshold)
  then show ?thesis unfolding r Q_def by (rule round_double_overflow [OF m zero_less_one])
qed

lemma dsum_overflow:
  assumes a: "is_finite a" and b: "is_finite b"
    and inf: "2 ^ 1024 - 2 ^ 970 \<le> \<bar>dval a + dval b\<bar>"
  shows "dsum a b = d_inf (dval a + dval b < 0)"
proof -
  define e where "e = min (expo a) (expo b)"
  define m where "m = aligned a e + aligned b e"
  define q where "q = dval a + dval b"
  have "(of_int m :: rat) * 2 powi e = of_int (aligned a e) * 2 powi e + of_int (aligned b e) * 2 powi e"
    by (simp add: m_def algebra_simps)
  also have "\<dots> = q"
    by (simp only: q_def aligned_value [of e a, OF min.cobounded1 [of "expo a" "expo b", folded e_def]]
        aligned_value [of e b, OF min.cobounded2 [of "expo a" "expo b", folded e_def]])
  finally have q: "q = of_int m * 2 powi e" by simp
  have "\<not> (2 :: rat) powi e < 0" using powi_pos [of e] by linarith
  then have qn: "q < 0 \<longleftrightarrow> m < 0" by (simp add: q mult_less_0_iff)
  have r: "dsum a b = round_sum (dsign a) (dsign b) m e"
    using a b by (simp add: dsum_def is_finite_def m_def e_def)
  define Q where "Q = (of_nat (nat \<bar>m\<bar>) :: rat) / of_nat 1 * 2 powi e"
  have Q: "Q = \<bar>q\<bar>" by (simp add: Q_def q abs_mult)
  from inf threshold_pos have "0 < Q" unfolding Q q_def by linarith
  then have m: "m \<noteq> 0" by (cases "m = 0") (simp_all add: Q_def)
  then have n: "0 < nat \<bar>m\<bar>" by simp
  have r': "dsum a b = round_double (m < 0) (nat \<bar>m\<bar>) 1 e"
    using m by (simp add: r round_sum_def)
  from inf have "2 powi 1024 - 2 powi 970 \<le> Q" by (simp only: Q q_def threshold)
  then have "dsum a b = d_inf (m < 0)"
    unfolding r' Q_def by (rule round_double_overflow [OF n zero_less_one])
  then show ?thesis using qn by (simp only: q_def)
qed

lemma d_inf_fields: "dsign (d_inf s) = s" "dexp (d_inf s) = 2047" "dfrac (d_inf s) = 0"
  by (cases s; simp add: d_inf_def sign_bit_def dsign_def dexp_def dfrac_def)+

lemma ddiv_rounds_to:
  assumes "is_finite a" "is_finite b" "\<not> is_zero b"
  shows "rounds_to (dval a / dval b) (dsign a \<noteq> dsign b) (ddiv nan a b)"
proof (cases "\<bar>dval a / dval b\<bar> < 2 ^ 1024 - 2 ^ 970")
  case True
  with ddiv_rounds [OF assms True, of nan] show ?thesis by (simp only: rounds_to_def if_True simp_thms)
next
  case False
  then have "2 ^ 1024 - 2 ^ 970 \<le> \<bar>dval a / dval b\<bar>" by simp
  from ddiv_overflow [OF assms this, of nan] False show ?thesis
    by (simp only: rounds_to_def if_False d_inf_fields simp_thms)
qed

lemma dmul_rounds_to:
  assumes "is_finite a" "is_finite b"
  shows "rounds_to (dval a * dval b) (dsign a \<noteq> dsign b) (dmul nan a b)"
proof (cases "\<bar>dval a * dval b\<bar> < 2 ^ 1024 - 2 ^ 970")
  case True
  with dmul_rounds [OF assms True, of nan] show ?thesis by (simp only: rounds_to_def if_True simp_thms)
next
  case False
  then have "2 ^ 1024 - 2 ^ 970 \<le> \<bar>dval a * dval b\<bar>" by simp
  from dmul_overflow [OF assms this, of nan] False show ?thesis
    by (simp only: rounds_to_def if_False d_inf_fields simp_thms)
qed

lemma dsum_rounds_to:
  assumes "is_finite a" "is_finite b"
  shows "rounds_to (dval a + dval b)
    (if dval a + dval b = 0 then dsign a \<and> dsign b else dval a + dval b < 0) (dsum a b)"
proof (cases "\<bar>dval a + dval b\<bar> < 2 ^ 1024 - 2 ^ 970")
  case True
  with dsum_rounds [OF assms True] show ?thesis by (simp only: rounds_to_def if_True simp_thms)
next
  case False
  then have i: "2 ^ 1024 - 2 ^ 970 \<le> \<bar>dval a + dval b\<bar>" by simp
  with threshold_pos have n: "dval a + dval b \<noteq> 0" by linarith
  from dsum_overflow [OF assms i] False n show ?thesis
    by (simp only: rounds_to_def if_False d_inf_fields simp_thms)
qed

lemma dadd_rounds_to:
  assumes "is_finite a" "is_finite b"
  shows "rounds_to (dval a + dval b)
    (if dval a + dval b = 0 then dsign a \<and> dsign b else dval a + dval b < 0) (dadd nan a b)"
proof -
  have "dadd nan a b = dsum a b" using assms by (simp add: dadd_def is_finite_def)
  with dsum_rounds_to [OF assms] show ?thesis by (simp only:)
qed

lemma dsub_rounds_to:
  assumes "is_finite a" "is_finite b"
  shows "rounds_to (dval a - dval b)
    (if dval a - dval b = 0 then dsign a \<and> \<not> dsign b else dval a - dval b < 0) (dsub nan a b)"
proof -
  have r: "dsub nan a b = dsum a (dneg b)" using assms by (simp add: dsub_def is_finite_def)
  have b: "is_finite (dneg b)" using assms(2) by (simp only: dneg_value)
  from dsum_rounds_to [OF assms(1) b] show ?thesis
    by (simp only: r dneg_value dneg_fields add_uminus_conv_diff)
qed

text \<open>Operands that are not finite.\<close>

lemma ddiv_special:
  "is_nan a \<or> is_nan b \<or> is_inf a \<and> is_inf b \<or> is_zero a \<and> is_zero b \<Longrightarrow> ddiv nan a b = nan a b"
  "is_inf a \<Longrightarrow> is_finite b \<Longrightarrow> ddiv nan a b = d_inf (dsign a \<noteq> dsign b)"
  "is_finite a \<Longrightarrow> is_inf b \<Longrightarrow> ddiv nan a b = d_zero (dsign a \<noteq> dsign b)"
  "is_finite a \<Longrightarrow> \<not> is_zero a \<Longrightarrow> is_zero b \<Longrightarrow> ddiv nan a b = d_inf (dsign a \<noteq> dsign b)"
  by (auto simp: ddiv_def is_finite_def is_inf_def is_nan_def is_zero_def)

lemma dmul_special:
  "is_nan a \<or> is_nan b \<or> is_inf a \<and> is_zero b \<or> is_zero a \<and> is_inf b \<Longrightarrow> dmul nan a b = nan a b"
  "is_inf a \<Longrightarrow> \<not> is_nan b \<Longrightarrow> \<not> is_zero b \<Longrightarrow> dmul nan a b = d_inf (dsign a \<noteq> dsign b)"
  "is_inf b \<Longrightarrow> \<not> is_nan a \<Longrightarrow> \<not> is_zero a \<Longrightarrow> dmul nan a b = d_inf (dsign a \<noteq> dsign b)"
  by (auto simp: dmul_def is_finite_def is_inf_def is_nan_def is_zero_def)

lemma dadd_special:
  "is_nan a \<or> is_nan b \<or> is_inf a \<and> is_inf b \<and> dsign a \<noteq> dsign b \<Longrightarrow> dadd nan a b = nan a b"
  "is_inf a \<Longrightarrow> is_finite b \<or> is_inf b \<and> dsign a = dsign b \<Longrightarrow> dadd nan a b = a"
  "is_finite a \<Longrightarrow> is_inf b \<Longrightarrow> dadd nan a b = b"
  by (auto simp: dadd_def dsum_def is_finite_def is_inf_def is_nan_def)

lemma dsub_special:
  "is_nan a \<or> is_nan b \<or> is_inf a \<and> is_inf b \<and> dsign a = dsign b \<Longrightarrow> dsub nan a b = nan a b"
  "is_inf a \<Longrightarrow> is_finite b \<or> is_inf b \<and> dsign a \<noteq> dsign b \<Longrightarrow> dsub nan a b = a"
  "is_finite a \<Longrightarrow> is_inf b \<Longrightarrow> dsub nan a b = dneg b"
  by (auto simp: dsub_def dsum_def is_finite_def is_inf_def is_nan_def dneg_fields)


section \<open>What the macros and one turn of the loop do\<close>

lemma NCODE_Some:
  "NCODE vm = Some (opc, vm') \<longleftrightarrow>
     0 \<le> pc vm \<and> pc vm < int (length (code vm)) \<and> pc vm < INT_MAX \<and>
     opc = code vm ! nat (pc vm) \<and> vm' = vm\<lparr>pc := pc vm + 1\<rparr>"
  by (auto simp: NCODE_def Let_def)

lemma PUSH_Some:
  "PUSH vm v = Some vm' \<longleftrightarrow>
     sp vm < INT_MAX \<and> 0 \<le> sp vm + 1 \<and> sp vm + 1 < int (length (stack vm)) \<and>
     vm' = vm\<lparr>stack := (stack vm)[nat (sp vm + 1) := v], sp := sp vm + 1\<rparr>"
  by (auto simp: PUSH_def Let_def)

lemma POP_Some:
  "POP vm = Some (v, vm') \<longleftrightarrow>
     0 \<le> sp vm \<and> sp vm < int (length (stack vm)) \<and>
     v = stack vm ! nat (sp vm) \<and> vm' = vm\<lparr>sp := sp vm - 1\<rparr>"
  by (auto simp: POP_def Let_def)

lemma memcpy_double_Some:
  "memcpy_double bo vm = Some d \<longleftrightarrow>
     0 \<le> pc vm \<and> pc vm + 8 \<le> int (length (code vm)) \<and>
     d = double_of_bytes bo (take 8 (drop (nat (pc vm)) (code vm)))"
  by (auto simp: memcpy_double_def)

lemmas access_Some = PUSH_Some POP_Some memcpy_double_Some

lemma execute_code: "execute bo nan opc vm = Some res \<Longrightarrow> code (vm_of res) = code vm"
  by (cases opc) (auto simp: access_Some split: Option.bind_splits if_splits)

lemma execute_pc:
  "execute bo nan opc vm = Some res \<Longrightarrow>
     pc (vm_of res) = pc vm \<or>
     opc = DCONST \<and> pc (vm_of res) = int32 (pc vm + 8) \<and> 0 \<le> pc vm \<and> pc vm + 8 \<le> int (length (code vm))"
  by (cases opc) (auto simp: access_Some split: Option.bind_splits if_splits)

lemma step_code: "step bo nan vm = Some res \<Longrightarrow> code (vm_of res) = code vm"
  by (auto simp: step_def NCODE_Some split: Option.bind_splits option.splits dest!: execute_code)

lemma step_pc:
  "step bo nan vm = Some res \<Longrightarrow>
     0 \<le> pc vm \<and> pc vm < int (length (code vm)) \<and> pc vm < INT_MAX \<and>
     (pc (vm_of res) = pc vm + 1 \<or>
      pc (vm_of res) = int32 (pc vm + 9) \<and> pc vm + 9 \<le> int (length (code vm)))"
  by (auto simp: step_def NCODE_Some add.commute split: Option.bind_splits option.splits dest!: execute_pc)

lemma int32_small: "- (2 ^ 31) \<le> k \<Longrightarrow> k < 2 ^ 31 \<Longrightarrow> int32 k = k"
  by (simp add: int32_def)

lemma int32_wrap: "2 ^ 31 \<le> k \<Longrightarrow> k < 2 ^ 32 \<Longrightarrow> int32 k < 0"
proof -
  assume a: "2 ^ 31 \<le> k" "k < 2 ^ 32"
  have "(k + 2 ^ 31) mod 2 ^ 32 = k + 2 ^ 31 - 2 ^ 32"
    using a by (simp add: mod_pos_geq)
  then show ?thesis using a by (simp add: int32_def)
qed

lemma step_remaining:
  assumes "step bo nan vm = Some res"
  shows "remaining (vm_of res) < remaining vm"
proof -
  from step_pc [OF assms] step_code [OF assms]
  have b: "0 \<le> pc vm" "pc vm < int (length (code vm))" "pc vm < INT_MAX"
    and c: "code (vm_of res) = code vm"
    and d: "pc (vm_of res) = pc vm + 1 \<or>
      pc (vm_of res) = int32 (pc vm + 9) \<and> pc vm + 9 \<le> int (length (code vm))"
    by auto
  from d show ?thesis
  proof
    assume "pc (vm_of res) = pc vm + 1"
    then show ?thesis using b c by (simp add: remaining_def)
  next
    assume e: "pc (vm_of res) = int32 (pc vm + 9) \<and> pc vm + 9 \<le> int (length (code vm))"
    show ?thesis
    proof (cases "pc vm + 9 < 2 ^ 31")
      case True
      then have "int32 (pc vm + 9) = pc vm + 9" using b by (simp add: int32_small)
      then show ?thesis using b c e by (simp add: remaining_def)
    next
      case False
      then have "int32 (pc vm + 9) < 0" using b by (intro int32_wrap) (simp_all add: INT_MAX_def)
      then show ?thesis using b c e by (simp add: remaining_def)
    qed
  qed
qed

section \<open>The loop\<close>

text \<open>
  \<open>run\<close> repeats \<open>step\<close> until it returns; the result is the exit status, the machine
  at that moment and everything printed, or \<open>None\<close> once a turn has left the arrays.
\<close>

function run :: "byte_order \<Rightarrow> nan_rule \<Rightarrow> VM \<Rightarrow> (int \<times> VM \<times> event list) option" where
  "run bo nan vm =
     (case step bo nan vm of
        None \<Rightarrow> None
      | Some (Exit status vm' out) \<Rightarrow> Some (status, vm', out)
      | Some (Continue vm' out) \<Rightarrow>
          (case run bo nan vm' of
             None \<Rightarrow> None
           | Some (status, vm'', out') \<Rightarrow> Some (status, vm'', out @ out')))"
  by pat_completeness auto

termination run
proof (relation "measure (\<lambda>(bo, nan, vm). remaining vm)")
  show "wf (measure (\<lambda>(bo, nan, vm). remaining vm))" by simp
next
  fix bo nan vm res vm' out
  assume "step bo nan vm = Some res" "res = Continue vm' out"
  then show "((bo, nan, vm'), (bo, nan, vm)) \<in> measure (\<lambda>(bo, nan, vm). remaining vm)"
    using step_remaining [of bo nan vm res] by simp
qed

lemma run_Exit: "step bo nan vm = Some (Exit status vm' out) \<Longrightarrow> run bo nan vm = Some (status, vm', out)"
  by (subst run.simps) simp

lemma run_Continue:
  "step bo nan vm = Some (Continue vm' out) \<Longrightarrow>
     run bo nan vm = map_option (\<lambda>(status, vm'', out'). (status, vm'', out @ out')) (run bo nan vm')"
  by (subst run.simps) (simp split: option.splits)

declare run.simps [simp del]

lemma run_None: "step bo nan vm = None \<Longrightarrow> run bo nan vm = None"
  by (subst run.simps) simp

text \<open>What a caller observes of a run: the exit status and the lines printed.\<close>

definition outcome :: "(int \<times> VM \<times> event list) option \<Rightarrow> (int \<times> event list) option" where
  "outcome r = map_option (\<lambda>(status, vm, out). (status, out)) r"

text \<open>
  The number of opcodes that \<open>run\<close> fetches from inside the code buffer: one for each turn
  of the loop, up to the turn that returns or leaves the arrays.
\<close>

function decode_steps :: "byte_order \<Rightarrow> nan_rule \<Rightarrow> VM \<Rightarrow> nat" where
  "decode_steps bo nan vm =
     (case NCODE vm of
        None \<Rightarrow> 0
      | Some fetched \<Rightarrow>
          (case step bo nan vm of
             Some (Continue vm' out) \<Rightarrow> Suc (decode_steps bo nan vm')
           | _ \<Rightarrow> 1))"
  by pat_completeness auto

termination decode_steps
proof (relation "measure (\<lambda>(bo, nan, vm). remaining vm)")
  show "wf (measure (\<lambda>(bo, nan, vm). remaining vm))" by simp
next
  fix bo nan vm res vm' out
  assume "step bo nan vm = Some res" "res = Continue vm' out"
  then show "((bo, nan, vm'), (bo, nan, vm)) \<in> measure (\<lambda>(bo, nan, vm). remaining vm)"
    using step_remaining [of bo nan vm res] by simp
qed

declare decode_steps.simps [simp del]

section \<open>Bounds of the stack and of the code buffer\<close>

lemma decode_opcode_value: "decode (opcode_value opc) = Some opc"
  by (cases opc) (simp_all add: decode_def case_labels_def opcode_value.simps)

lemma step_fetch:
  "NCODE vm = Some (opcode_value opc, vm') \<Longrightarrow> step bo nan vm = execute bo nan opc vm'"
  by (simp add: step_def decode_opcode_value)

lemma PUSH_None:
  "PUSH vm v = None \<longleftrightarrow> \<not> (sp vm < INT_MAX \<and> 0 \<le> sp vm + 1 \<and> sp vm + 1 < int (length (stack vm)))"
  by (simp add: PUSH_def Let_def)

lemma POP_None:
  "POP vm = None \<longleftrightarrow> \<not> (0 \<le> sp vm \<and> sp vm < int (length (stack vm)))"
  by (simp add: POP_def Let_def)

lemma NCODE_None:
  "NCODE vm = None \<longleftrightarrow> \<not> (0 \<le> pc vm \<and> pc vm < int (length (code vm)) \<and> pc vm < INT_MAX)"
  by (simp add: NCODE_def Let_def)

lemma execute_full:
  assumes "sp vm + 1 = int (length (stack vm))"
    and "opc \<in> {DCONST_M1, DCONST_0, DCONST_1, DCONST_2, DCONST, LD1, LD2}"
  shows "execute bo nan opc vm = None"
  using assms by (auto simp: PUSH_Some split: Option.bind_splits)

lemma execute_empty:
  assumes "sp vm = - 1"
    and "opc \<in> {ADD, SUB, MUL, DIV, NEG, ST1, ST2, PRINT}"
  shows "execute bo nan opc vm = None"
  using assms by (auto simp: POP_Some split: Option.bind_splits)

text \<open>
  C1 (as amended). No push and no pop is checked. \<open>PUSH\<close> is undefined exactly when
  \<open>sp + 1\<close> is not an index of the stack array, \<open>POP\<close> exactly when \<open>sp\<close> is not. With
  the 256 cells of the stack occupied (\<open>sp = 255\<close>), every opcode that pushes writes
  \<open>stack[256]\<close>, outside the array; with the stack empty (\<open>sp = -1\<close>), every opcode that
  pops reads \<open>stack[-1]\<close>. In both cases the turn of the loop is undefined: it returns no
  failure status.
\<close>

theorem stack_bounds_unchecked:
  "(PUSH vm v = None \<longleftrightarrow>
      \<not> (sp vm < INT_MAX \<and> 0 \<le> sp vm + 1 \<and> sp vm + 1 < int (length (stack vm)))) \<and>
   (POP vm = None \<longleftrightarrow> \<not> (0 \<le> sp vm \<and> sp vm < int (length (stack vm)))) \<and>
   (length (stack vm) = STACK_SIZE \<and> sp vm = 255 \<and> NCODE vm = Some (opcode_value opc, vm') \<and>
    opc \<in> {DCONST_M1, DCONST_0, DCONST_1, DCONST_2, DCONST, LD1, LD2}
      \<longrightarrow> step bo nan vm = None) \<and>
   (sp vm = - 1 \<and> NCODE vm = Some (opcode_value opc, vm') \<and>
    opc \<in> {ADD, SUB, MUL, DIV, NEG, ST1, ST2, PRINT}
      \<longrightarrow> step bo nan vm = None)"
proof (intro conjI impI)
  show "PUSH vm v = None \<longleftrightarrow>
      \<not> (sp vm < INT_MAX \<and> 0 \<le> sp vm + 1 \<and> sp vm + 1 < int (length (stack vm)))"
    by (rule PUSH_None)
  show "POP vm = None \<longleftrightarrow> \<not> (0 \<le> sp vm \<and> sp vm < int (length (stack vm)))"
    by (rule POP_None)
next
  assume a: "length (stack vm) = STACK_SIZE \<and> sp vm = 255 \<and>
    NCODE vm = Some (opcode_value opc, vm') \<and>
    opc \<in> {DCONST_M1, DCONST_0, DCONST_1, DCONST_2, DCONST, LD1, LD2}"
  then have "sp vm' + 1 = int (length (stack vm'))"
    by (auto simp: NCODE_Some STACK_SIZE_def)
  with a show "step bo nan vm = None"
    by (simp only: step_fetch [of vm opc vm' bo nan] execute_full)
next
  assume a: "sp vm = - 1 \<and> NCODE vm = Some (opcode_value opc, vm') \<and>
    opc \<in> {ADD, SUB, MUL, DIV, NEG, ST1, ST2, PRINT}"
  then have "sp vm' = - 1" by (auto simp: NCODE_Some)
  with a show "step bo nan vm = None"
    by (simp only: step_fetch [of vm opc vm' bo nan] execute_empty)
qed

text \<open>The theorem at a full stack with \<open>DCONST_1\<close> and at an empty stack with \<open>PRINT\<close>.\<close>

theorem stack_bounds_unchecked_witness:
  "length (stack \<lparr>r1 = d_0, r2 = d_0, code = [opcode_value DCONST_1],
                   stack = replicate STACK_SIZE d_0, pc = 0, sp = 255\<rparr>) = STACK_SIZE \<and>
   NCODE \<lparr>r1 = d_0, r2 = d_0, code = [opcode_value DCONST_1],
          stack = replicate STACK_SIZE d_0, pc = 0, sp = 255\<rparr> =
     Some (opcode_value DCONST_1,
           \<lparr>r1 = d_0, r2 = d_0, code = [opcode_value DCONST_1],
            stack = replicate STACK_SIZE d_0, pc = 1, sp = 255\<rparr>) \<and>
   step BigEndian sse_nan \<lparr>r1 = d_0, r2 = d_0, code = [opcode_value DCONST_1],
                   stack = replicate STACK_SIZE d_0, pc = 0, sp = 255\<rparr> = None \<and>
   NCODE \<lparr>r1 = d_0, r2 = d_0, code = [opcode_value PRINT],
          stack = replicate STACK_SIZE d_0, pc = 0, sp = - 1\<rparr> =
     Some (opcode_value PRINT,
           \<lparr>r1 = d_0, r2 = d_0, code = [opcode_value PRINT],
            stack = replicate STACK_SIZE d_0, pc = 1, sp = - 1\<rparr>) \<and>
   step BigEndian sse_nan \<lparr>r1 = d_0, r2 = d_0, code = [opcode_value PRINT],
                   stack = replicate STACK_SIZE d_0, pc = 0, sp = - 1\<rparr> = None"
  using
    stack_bounds_unchecked
      [of "\<lparr>r1 = d_0, r2 = d_0, code = [opcode_value DCONST_1],
            stack = replicate STACK_SIZE d_0, pc = 0, sp = 255\<rparr>" d_0 DCONST_1
          "\<lparr>r1 = d_0, r2 = d_0, code = [opcode_value DCONST_1],
            stack = replicate STACK_SIZE d_0, pc = 1, sp = 255\<rparr>" BigEndian sse_nan]
    stack_bounds_unchecked
      [of "\<lparr>r1 = d_0, r2 = d_0, code = [opcode_value PRINT],
            stack = replicate STACK_SIZE d_0, pc = 0, sp = - 1\<rparr>" d_0 PRINT
          "\<lparr>r1 = d_0, r2 = d_0, code = [opcode_value PRINT],
            stack = replicate STACK_SIZE d_0, pc = 1, sp = - 1\<rparr>" BigEndian sse_nan]
  by (simp add: NCODE_def INT_MAX_def)

text \<open>
  C1 as stated fails: \<open>DCONST_1\<close> on a full stack and \<open>ADD\<close> on the empty stack of a new
  machine do not end the run with a failure; the access leaves the stack array.
\<close>

theorem stack_checks_counterexample:
  "step LittleEndian sse_nan \<lparr>r1 = d_0, r2 = d_0, code = [opcode_value DCONST_1],
                      stack = replicate STACK_SIZE d_0, pc = 0, sp = 255\<rparr> = None \<and>
   step LittleEndian sse_nan (newVM [opcode_value ADD] of_nat) = None"
  by (simp add: newVM_def step_def NCODE_def INT_MAX_def decode_opcode_value PUSH_def
      POP_def STACK_SIZE_def)

text \<open>
  C2 (as amended). No fetch is checked. With the program counter outside the code buffer,
  \<open>NCODE\<close> reads outside the buffer; with fewer than 8 bytes after a \<open>DCONST\<close> opcode,
  \<open>memcpy\<close> does. In both cases the turn of the loop is undefined: it returns no failure
  status.
\<close>

theorem fetch_unchecked:
  "(pc vm < 0 \<or> int (length (code vm)) \<le> pc vm \<longrightarrow> NCODE vm = None \<and> step bo nan vm = None) \<and>
   (NCODE vm = Some (opcode_value DCONST, vm') \<and> int (length (code vm)) < pc vm + 9
      \<longrightarrow> memcpy_double bo vm' = None \<and> step bo nan vm = None)"
proof (intro conjI impI)
  assume "pc vm < 0 \<or> int (length (code vm)) \<le> pc vm"
  then show "NCODE vm = None" by (auto simp: NCODE_None)
  then show "step bo nan vm = None" by (simp add: step_def)
next
  assume a: "NCODE vm = Some (opcode_value DCONST, vm') \<and> int (length (code vm)) < pc vm + 9"
  then show m: "memcpy_double bo vm' = None"
    by (auto simp: NCODE_Some memcpy_double_def)
  from a have "step bo nan vm = execute bo nan DCONST vm'" by (simp add: step_fetch)
  with m show "step bo nan vm = None" by simp
qed

text \<open>
  The theorem at the program \<open>NOP\<close> after its only opcode, and at a \<open>DCONST\<close> followed by
  two bytes.
\<close>

theorem fetch_unchecked_witness:
  "int (length (code ((newVM [opcode_value NOP] of_nat)\<lparr>pc := 1\<rparr>))) \<le>
     pc ((newVM [opcode_value NOP] of_nat)\<lparr>pc := 1\<rparr>) \<and>
   step LittleEndian sse_nan ((newVM [opcode_value NOP] of_nat)\<lparr>pc := 1\<rparr>) = None \<and>
   NCODE (newVM [opcode_value DCONST, 0x3F, 0xF0] of_nat) =
     Some (opcode_value DCONST, (newVM [opcode_value DCONST, 0x3F, 0xF0] of_nat)\<lparr>pc := 1\<rparr>) \<and>
   int (length (code (newVM [opcode_value DCONST, 0x3F, 0xF0] of_nat))) <
     pc (newVM [opcode_value DCONST, 0x3F, 0xF0] of_nat) + 9 \<and>
   step LittleEndian sse_nan (newVM [opcode_value DCONST, 0x3F, 0xF0] of_nat) = None"
  using
    fetch_unchecked [where vm = "(newVM [opcode_value NOP] of_nat)\<lparr>pc := 1\<rparr>"
      and bo = LittleEndian and nan = sse_nan]
    fetch_unchecked [where vm = "newVM [opcode_value DCONST, 0x3F, 0xF0] of_nat"
      and vm' = "(newVM [opcode_value DCONST, 0x3F, 0xF0] of_nat)\<lparr>pc := 1\<rparr>"
      and bo = LittleEndian and nan = sse_nan]
  by (simp add: newVM_def NCODE_def INT_MAX_def)

text \<open>
  C2 as stated fails: neither the fetch after the only opcode of the program \<open>NOP\<close> nor a
  \<open>DCONST\<close> with two operand bytes ends the run with a failure.
\<close>

theorem end_of_code_counterexample:
  "step LittleEndian sse_nan ((newVM [opcode_value NOP] of_nat)\<lparr>pc := 1\<rparr>) = None \<and>
   step LittleEndian sse_nan (newVM [opcode_value DCONST, 0x3F, 0xF0] of_nat) = None"
  by (simp add: newVM_def step_def NCODE_def INT_MAX_def decode_opcode_value memcpy_double_def)

section \<open>The operand of \<open>DCONST\<close>\<close>

lemma double_of_bytes_LittleEndian:
  "double_of_bytes LittleEndian [ba, bb, bc, bd, be, bf, bg, bh] =
     ucast ba OR push_bit 8 (ucast bb) OR push_bit 16 (ucast bc) OR push_bit 24 (ucast bd) OR
     push_bit 32 (ucast be) OR push_bit 40 (ucast bf) OR push_bit 48 (ucast bg) OR
     push_bit 56 (ucast bh)"
  by (simp add: double_of_bytes_def cat_bytes_def push_bit_or ac_simps)

lemma double_of_bytes_BigEndian:
  "double_of_bytes BigEndian [ba, bb, bc, bd, be, bf, bg, bh] =
     push_bit 56 (ucast ba) OR push_bit 48 (ucast bb) OR push_bit 40 (ucast bc) OR
     push_bit 32 (ucast bd) OR push_bit 24 (ucast be) OR push_bit 16 (ucast bf) OR
     push_bit 8 (ucast bg) OR ucast bh"
  by (simp add: double_of_bytes_def cat_bytes_def push_bit_or ac_simps)

lemma le_one: "double_of_bytes LittleEndian [0, 0, 0, 0, 0, 0, 0xF0, 0x3F] = d_1"
  by (simp add: double_of_bytes_def cat_bytes_def d_1_def)

lemma le_sub: "double_of_bytes LittleEndian [0x3F, 0xF0, 0, 0, 0, 0, 0, 0] = 0xF03F"
  by (simp add: double_of_bytes_def cat_bytes_def)

lemma be_one: "double_of_bytes BigEndian [0x3F, 0xF0, 0, 0, 0, 0, 0, 0] = d_1"
  by (simp add: double_of_bytes_def cat_bytes_def d_1_def)

lemma dval_1: "dval d_1 = 1"
  by (simp add: dval_def double_defs d_1_def)

lemma dval_sub: "smant 0xF03F = 61503 \<and> expo 0xF03F = - 1074"
  by (simp add: dval_def double_defs)

lemma execute_DCONST:
  assumes "0 \<le> pc vm" "pc vm + 8 \<le> int (length (code vm))"
    "- 1 \<le> sp vm" "sp vm + 1 < int (length (stack vm))" "sp vm < INT_MAX"
  shows "execute bo nan DCONST vm =
     Some (Continue
       (vm\<lparr>stack := (stack vm)[nat (sp vm + 1) :=
               double_of_bytes bo (take 8 (drop (nat (pc vm)) (code vm)))],
           pc := int32 (pc vm + 8), sp := sp vm + 1\<rparr>) [])"
  using assms by (simp add: memcpy_double_def PUSH_def Let_def)

text \<open>
  C3 (as amended). A \<open>DCONST\<close> with its 8 operand bytes inside the buffer, and room on the
  stack, pushes the double whose object representation is these bytes in the byte order of
  the host, and moves the program counter past them. On a little-endian host the byte at
  the lowest offset is the least significant: \<open>00 00 00 00 00 00 F0 3F\<close> is 1.0, and
  \<open>3F F0 00 00 00 00 00 00\<close> is the subnormal \<open>61503 * 2 ^ - 1074\<close>. It is on a
  big-endian host that \<open>3F F0 00 00 00 00 00 00\<close> is 1.0.
\<close>

theorem DCONST_host_byte_order:
  "(NCODE vm = Some (opcode_value DCONST, vm') \<and> pc vm + 9 \<le> int (length (code vm)) \<and>
    - 1 \<le> sp vm \<and> sp vm + 1 < int (length (stack vm)) \<and> sp vm < INT_MAX
      \<longrightarrow> step bo nan vm =
            Some (Continue
              (vm\<lparr>stack := (stack vm)[nat (sp vm + 1) :=
                      double_of_bytes bo (take 8 (drop (nat (pc vm + 1)) (code vm)))],
                  pc := int32 (pc vm + 9), sp := sp vm + 1\<rparr>) [])) \<and>
   double_of_bytes LittleEndian [ba, bb, bc, bd, be, bf, bg, bh] =
     ucast ba OR push_bit 8 (ucast bb) OR push_bit 16 (ucast bc) OR push_bit 24 (ucast bd) OR
     push_bit 32 (ucast be) OR push_bit 40 (ucast bf) OR push_bit 48 (ucast bg) OR
     push_bit 56 (ucast bh) \<and>
   double_of_bytes BigEndian [ba, bb, bc, bd, be, bf, bg, bh] =
     push_bit 56 (ucast ba) OR push_bit 48 (ucast bb) OR push_bit 40 (ucast bc) OR
     push_bit 32 (ucast bd) OR push_bit 24 (ucast be) OR push_bit 16 (ucast bf) OR
     push_bit 8 (ucast bg) OR ucast bh \<and>
   double_of_bytes LittleEndian [0, 0, 0, 0, 0, 0, 0xF0, 0x3F] = d_1 \<and>
   double_of_bytes LittleEndian [0x3F, 0xF0, 0, 0, 0, 0, 0, 0] = 0xF03F \<and>
   double_of_bytes BigEndian [0x3F, 0xF0, 0, 0, 0, 0, 0, 0] = d_1 \<and>
   dval d_1 = 1 \<and> smant 0xF03F = 61503 \<and> expo 0xF03F = - 1074"
proof -
  have "step bo nan vm =
      Some (Continue
        (vm\<lparr>stack := (stack vm)[nat (sp vm + 1) :=
                double_of_bytes bo (take 8 (drop (nat (pc vm + 1)) (code vm)))],
            pc := int32 (pc vm + 9), sp := sp vm + 1\<rparr>) [])"
    if a: "NCODE vm = Some (opcode_value DCONST, vm') \<and> pc vm + 9 \<le> int (length (code vm)) \<and>
      - 1 \<le> sp vm \<and> sp vm + 1 < int (length (stack vm)) \<and> sp vm < INT_MAX"
  proof -
    from a have v: "vm' = vm\<lparr>pc := pc vm + 1\<rparr>" and p: "0 \<le> pc vm"
      by (simp_all add: NCODE_Some)
    have "step bo nan vm = execute bo nan DCONST vm'" using a by (simp add: step_fetch)
    also have "\<dots> = Some (Continue
        (vm'\<lparr>stack := (stack vm')[nat (sp vm' + 1) :=
                double_of_bytes bo (take 8 (drop (nat (pc vm')) (code vm')))],
            pc := int32 (pc vm' + 8), sp := sp vm' + 1\<rparr>) [])"
      using a p by (intro execute_DCONST) (simp_all add: v)
    finally show ?thesis by (simp add: v add.commute)
  qed
  then show ?thesis
    using double_of_bytes_LittleEndian [of ba bb bc bd be bf bg bh]
      double_of_bytes_BigEndian [of ba bb bc bd be bf bg bh]
      le_one le_sub be_one dval_1 dval_sub
    by blast
qed

text \<open>The theorem at \<open>DCONST 00 00 00 00 00 00 F0 3F\<close> on a new machine.\<close>

theorem DCONST_host_byte_order_witness:
  "NCODE (newVM [opcode_value DCONST, 0, 0, 0, 0, 0, 0, 0xF0, 0x3F] of_nat) =
     Some (opcode_value DCONST,
           (newVM [opcode_value DCONST, 0, 0, 0, 0, 0, 0, 0xF0, 0x3F] of_nat)\<lparr>pc := 1\<rparr>) \<and>
   step LittleEndian sse_nan (newVM [opcode_value DCONST, 0, 0, 0, 0, 0, 0, 0xF0, 0x3F] of_nat) =
     Some (Continue
       ((newVM [opcode_value DCONST, 0, 0, 0, 0, 0, 0, 0xF0, 0x3F] of_nat)
          \<lparr>stack := (map of_nat [0..<STACK_SIZE])[0 := d_1], pc := 9, sp := 0\<rparr>) [])"
  using DCONST_host_byte_order
    [where vm = "newVM [opcode_value DCONST, 0, 0, 0, 0, 0, 0, 0xF0, 0x3F] of_nat"
      and vm' = "(newVM [opcode_value DCONST, 0, 0, 0, 0, 0, 0, 0xF0, 0x3F] of_nat)\<lparr>pc := 1\<rparr>"
      and bo = LittleEndian and nan = sse_nan and ba = 0 and bb = 0 and bc = 0 and bd = 0 and be = 0 and bf = 0
      and bg = 0 and bh = 0]
  by (simp add: newVM_def NCODE_def INT_MAX_def STACK_SIZE_def int32_def)

text \<open>
  C3 as stated fails on either host: at the bytes \<open>3F F0 00 00 00 00 00 00\<close> the
  little-endian reading and the value 1.0 exclude each other.
\<close>

theorem DCONST_little_endian_counterexample:
  "\<not> (double_of_bytes LittleEndian [0x3F, 0xF0, 0, 0, 0, 0, 0, 0] =
        cat_bytes (rev [0x3F, 0xF0, 0, 0, 0, 0, 0, 0]) \<and>
      double_of_bytes LittleEndian [0x3F, 0xF0, 0, 0, 0, 0, 0, 0] = d_1) \<and>
   \<not> (double_of_bytes BigEndian [0x3F, 0xF0, 0, 0, 0, 0, 0, 0] =
        cat_bytes (rev [0x3F, 0xF0, 0, 0, 0, 0, 0, 0]) \<and>
      double_of_bytes BigEndian [0x3F, 0xF0, 0, 0, 0, 0, 0, 0] = d_1)"
  by (simp add: double_of_bytes_def cat_bytes_def d_1_def)

section \<open>Arithmetic opcodes\<close>

text \<open>Values of the arithmetic on the literals of the source.\<close>

lemma is_zero_d_0: "is_zero d_0"
  by (simp add: double_defs)

lemma not_is_zero_d_2: "\<not> is_zero d_2"
  by (simp add: double_defs)

lemma ddiv_m1_2: "ddiv nan d_m1 d_2 = 0xBFE0000000000000"
  by (simp add: double_defs)

lemma dadd_2_1: "dadd nan d_2 d_1 = 0x4008000000000000"
  by (simp add: double_defs)

lemma dsub_2_1: "dsub nan d_2 d_1 = d_1"
  by (simp add: double_defs)

lemma dmul_2_1: "dmul nan d_2 d_1 = d_2"
  by (simp add: double_defs)

lemma dval_examples:
  "dval d_m1 = - 1" "dval d_0 = 0" "dval d_1 = 1" "dval d_2 = 2"
  "dval 0xBFE0000000000000 = - 1 / 2" "dval 0x4008000000000000 = 3"
  by (simp_all add: dval_def double_defs power_int_minus)

text \<open>
  The binary opcodes on a stack of 256 cells that holds at least two values: \<open>b\<close> is the
  top cell, \<open>a\<close> the one below, and the result replaces \<open>a\<close>.
\<close>

lemma execute_binop:
  assumes "1 \<le> sp vm" "sp vm < int (length (stack vm))" "length (stack vm) = STACK_SIZE"
  shows "execute bo nan ADD vm =
           Some (Continue (vm\<lparr>stack := (stack vm)[nat (sp vm - 1) :=
             dadd (nan ADD) (stack vm ! nat (sp vm - 1)) (stack vm ! nat (sp vm))], sp := sp vm - 1\<rparr>) [])"
    and "execute bo nan SUB vm =
           Some (Continue (vm\<lparr>stack := (stack vm)[nat (sp vm - 1) :=
             dsub (nan SUB) (stack vm ! nat (sp vm - 1)) (stack vm ! nat (sp vm))], sp := sp vm - 1\<rparr>) [])"
    and "execute bo nan MUL vm =
           Some (Continue (vm\<lparr>stack := (stack vm)[nat (sp vm - 1) :=
             dmul (nan MUL) (stack vm ! nat (sp vm - 1)) (stack vm ! nat (sp vm))], sp := sp vm - 1\<rparr>) [])"
    and "\<not> is_zero (stack vm ! nat (sp vm)) \<Longrightarrow> execute bo nan DIV vm =
           Some (Continue (vm\<lparr>stack := (stack vm)[nat (sp vm - 1) :=
             ddiv (nan DIV) (stack vm ! nat (sp vm - 1)) (stack vm ! nat (sp vm))], sp := sp vm - 1\<rparr>) [])"
    and "is_zero (stack vm ! nat (sp vm)) \<Longrightarrow> execute bo nan DIV vm =
           Some (Exit EXIT_FAILURE (vm\<lparr>sp := sp vm - 2\<rparr>) [DividingByZeroError (opcode_value DIV)])"
  using assms by (simp_all add: POP_def PUSH_def Let_def INT_MAX_def STACK_SIZE_def)

text \<open>Which of the doubles used below are finite, and which are NaNs.\<close>

lemma classified_examples:
  "is_finite d_m1" "is_finite d_0" "is_finite d_1" "is_finite d_2" "is_finite 0x4008000000000000"
  "\<not> is_inf d_m1" "\<not> is_inf d_0" "\<not> is_inf d_1" "\<not> is_inf d_2"
  "\<not> is_inf 0x4008000000000000"
  "\<not> is_nan d_m1" "\<not> is_nan d_0" "\<not> is_nan d_1" "\<not> is_nan d_2"
  "\<not> is_nan 0x4008000000000000"
  "\<not> is_zero d_m1" "\<not> is_zero d_1" "\<not> is_zero d_2" "\<not> is_zero 0x4008000000000000"
  "\<not> is_zero 0xFFF0000000000001"
  "is_nan 0xFFF0000000000001" "\<not> is_finite 0xFFF0000000000001" "\<not> is_inf 0xFFF0000000000001"
  "dsign d_m1" "\<not> dsign d_0" "\<not> dsign d_1" "\<not> dsign d_2" "\<not> dsign 0x4008000000000000"
  by (simp_all add: is_finite_def double_defs)

text \<open>
  C4. On a machine whose stack holds at least two values, with \<open>b\<close> the top value and \<open>a\<close>
  the one below: \<open>DIV\<close> with \<open>b\<close> equal to zero (\<open>!b\<close>, true of \<open>+0.0\<close> and \<open>-0.0\<close> only)
  prints the \<open>DividingByZeroError\<close> line and returns \<open>EXIT_FAILURE\<close>: the stack array is
  left as it was, so no result is pushed, and \<open>run\<close> returns in this turn of the loop, so no
  further opcode is executed. With \<open>b\<close> not zero, \<open>DIV\<close> stores \<open>a / b\<close> in the cell of \<open>a\<close>
  and goes on. What \<open>a / b\<close> is: for finite operands the double nearest to the exact
  quotient of the two values (ties to even), with the sign bit the exclusive or of the two
  sign bits, or the infinity of that sign when the quotient is out of range; an infinity
  for an infinite \<open>a\<close> and a finite \<open>b\<close>; a zero for a finite \<open>a\<close> and an infinite \<open>b\<close>; and, for
  a NaN operand or two infinities, the NaN of the machine.
\<close>

theorem DIV_by_zero:
  "NCODE vm = Some (opcode_value DIV, vm') \<and> length (stack vm) = STACK_SIZE \<and>
   1 \<le> sp vm \<and> sp vm < int STACK_SIZE \<and>
   a = stack vm ! nat (sp vm - 1) \<and> b = stack vm ! nat (sp vm)
     \<longrightarrow>
   (is_zero b \<longrightarrow>
      step bo nan vm =
        Some (Exit EXIT_FAILURE (vm\<lparr>pc := pc vm + 1, sp := sp vm - 2\<rparr>)
                [DividingByZeroError (opcode_value DIV)]) \<and>
      run bo nan vm =
        Some (EXIT_FAILURE, vm\<lparr>pc := pc vm + 1, sp := sp vm - 2\<rparr>,
              [DividingByZeroError (opcode_value DIV)])) \<and>
   (\<not> is_zero b \<longrightarrow>
      step bo nan vm =
        Some (Continue
          (vm\<lparr>stack := (stack vm)[nat (sp vm - 1) := ddiv (nan DIV) a b],
              pc := pc vm + 1, sp := sp vm - 1\<rparr>) []) \<and>
      (is_finite a \<and> is_finite b \<longrightarrow>
         rounds_to (dval a / dval b) (dsign a \<noteq> dsign b) (ddiv (nan DIV) a b)) \<and>
      (is_inf a \<and> is_finite b \<longrightarrow> ddiv (nan DIV) a b = d_inf (dsign a \<noteq> dsign b)) \<and>
      (is_finite a \<and> is_inf b \<longrightarrow> ddiv (nan DIV) a b = d_zero (dsign a \<noteq> dsign b)) \<and>
      (is_nan a \<or> is_nan b \<or> is_inf a \<and> is_inf b \<longrightarrow> ddiv (nan DIV) a b = nan DIV a b))"
proof (intro impI conjI)
  assume h: "NCODE vm = Some (opcode_value DIV, vm') \<and> length (stack vm) = STACK_SIZE \<and>
    1 \<le> sp vm \<and> sp vm < int STACK_SIZE \<and>
    a = stack vm ! nat (sp vm - 1) \<and> b = stack vm ! nat (sp vm)"
  then have v: "vm' = vm\<lparr>pc := pc vm + 1\<rparr>" by (simp add: NCODE_Some)
  have s: "step bo nan vm = execute bo nan DIV vm'" using h by (simp add: step_fetch)
  have c: "1 \<le> sp vm'" "sp vm' < int (length (stack vm'))" "length (stack vm') = STACK_SIZE"
    using h by (simp_all add: v)
  have ab: "a = stack vm ! nat (sp vm - 1)" "b = stack vm ! nat (sp vm)" using h by simp_all
  {
    assume z: "is_zero b"
    then have "is_zero (stack vm' ! nat (sp vm'))" by (simp add: v ab)
    from execute_binop(5) [OF c this]
    show e: "step bo nan vm =
        Some (Exit EXIT_FAILURE (vm\<lparr>pc := pc vm + 1, sp := sp vm - 2\<rparr>)
                [DividingByZeroError (opcode_value DIV)])"
      by (simp add: s v)
    then show "run bo nan vm =
        Some (EXIT_FAILURE, vm\<lparr>pc := pc vm + 1, sp := sp vm - 2\<rparr>,
              [DividingByZeroError (opcode_value DIV)])"
      by (rule run_Exit)
  }
  {
    assume z: "\<not> is_zero b"
    then have "\<not> is_zero (stack vm' ! nat (sp vm'))" by (simp add: v ab)
    from execute_binop(4) [OF c this]
    show "step bo nan vm =
        Some (Continue
          (vm\<lparr>stack := (stack vm)[nat (sp vm - 1) := ddiv (nan DIV) a b],
              pc := pc vm + 1, sp := sp vm - 1\<rparr>) [])"
      by (simp add: s v ab)
    show "rounds_to (dval a / dval b) (dsign a \<noteq> dsign b) (ddiv (nan DIV) a b)"
      if "is_finite a \<and> is_finite b"
      using that z ddiv_rounds_to [of a b "nan DIV"] by blast
  }
  show "ddiv (nan DIV) a b = d_inf (dsign a \<noteq> dsign b)" if "is_inf a \<and> is_finite b"
    using that ddiv_special(2) [of a b "nan DIV"] by blast
  show "ddiv (nan DIV) a b = d_zero (dsign a \<noteq> dsign b)" if "is_finite a \<and> is_inf b"
    using that ddiv_special(3) [of a b "nan DIV"] by blast
  show "ddiv (nan DIV) a b = nan DIV a b" if "is_nan a \<or> is_nan b \<or> is_inf a \<and> is_inf b"
    using that ddiv_special(1) [of a b "nan DIV"] by blast
qed

text \<open>
  The theorem at \<open>DIV\<close> after \<open>DCONST_1, DCONST_0\<close> (division by zero); at \<open>DIV\<close> on \<open>-1.0\<close>
  and \<open>2.0\<close>, which leaves \<open>-0.5\<close>; on \<open>1.0\<close> and \<open>3.0\<close>, which leaves the double nearest to
  one third; and on \<open>1.0\<close> and a signalling NaN, which on a machine with the rule \<open>sse_nan\<close>
  leaves that NaN with its quiet bit set.
\<close>

theorem DIV_by_zero_witness:
  "step LittleEndian sse_nan
     \<lparr>r1 = d_0, r2 = d_0, code = map opcode_value [DCONST_1, DCONST_0, DIV, PRINT, HALT],
        stack = [d_1, d_0] @ replicate 254 d_0, pc = 2, sp = 1\<rparr> =
     Some (Exit EXIT_FAILURE
       \<lparr>r1 = d_0, r2 = d_0, code = map opcode_value [DCONST_1, DCONST_0, DIV, PRINT, HALT],
        stack = [d_1, d_0] @ replicate 254 d_0, pc = 3, sp = - 1\<rparr>
       [DividingByZeroError (opcode_value DIV)]) \<and>
   run LittleEndian sse_nan
     \<lparr>r1 = d_0, r2 = d_0, code = map opcode_value [DCONST_1, DCONST_0, DIV, PRINT, HALT],
        stack = [d_1, d_0] @ replicate 254 d_0, pc = 2, sp = 1\<rparr> =
     Some (EXIT_FAILURE,
       \<lparr>r1 = d_0, r2 = d_0, code = map opcode_value [DCONST_1, DCONST_0, DIV, PRINT, HALT],
        stack = [d_1, d_0] @ replicate 254 d_0, pc = 3, sp = - 1\<rparr>,
       [DividingByZeroError (opcode_value DIV)]) \<and>
   step LittleEndian sse_nan
     \<lparr>r1 = d_0, r2 = d_0, code = [opcode_value DIV],
        stack = [d_m1, d_2] @ replicate 254 d_0, pc = 0, sp = 1\<rparr> =
     Some (Continue
       \<lparr>r1 = d_0, r2 = d_0, code = [opcode_value DIV],
        stack = [0xBFE0000000000000, d_2] @ replicate 254 d_0, pc = 1, sp = 0\<rparr> []) \<and>
   rounds_to (- 1 / 2) True 0xBFE0000000000000 \<and>
   step LittleEndian sse_nan
     \<lparr>r1 = d_0, r2 = d_0, code = [opcode_value DIV],
        stack = [d_1, 0x4008000000000000] @ replicate 254 d_0, pc = 0, sp = 1\<rparr> =
     Some (Continue
       \<lparr>r1 = d_0, r2 = d_0, code = [opcode_value DIV],
        stack = [0x3FD5555555555555, 0x4008000000000000] @ replicate 254 d_0, pc = 1, sp = 0\<rparr> []) \<and>
   rounds_to (1 / 3) False 0x3FD5555555555555 \<and>
   step LittleEndian sse_nan
     \<lparr>r1 = d_0, r2 = d_0, code = [opcode_value DIV],
        stack = [d_1, 0xFFF0000000000001] @ replicate 254 d_0, pc = 0, sp = 1\<rparr> =
     Some (Continue
       \<lparr>r1 = d_0, r2 = d_0, code = [opcode_value DIV],
        stack = [0xFFF8000000000001, 0xFFF0000000000001] @ replicate 254 d_0, pc = 1, sp = 0\<rparr> [])"
proof -
  have 1: "step LittleEndian sse_nan
     \<lparr>r1 = d_0, r2 = d_0, code = map opcode_value [DCONST_1, DCONST_0, DIV, PRINT, HALT],
        stack = [d_1, d_0] @ replicate 254 d_0, pc = 2, sp = 1\<rparr> =
     Some (Exit EXIT_FAILURE
       \<lparr>r1 = d_0, r2 = d_0, code = map opcode_value [DCONST_1, DCONST_0, DIV, PRINT, HALT],
        stack = [d_1, d_0] @ replicate 254 d_0, pc = 3, sp = - 1\<rparr>
       [DividingByZeroError (opcode_value DIV)]) \<and>
   run LittleEndian sse_nan
     \<lparr>r1 = d_0, r2 = d_0, code = map opcode_value [DCONST_1, DCONST_0, DIV, PRINT, HALT],
        stack = [d_1, d_0] @ replicate 254 d_0, pc = 2, sp = 1\<rparr> =
     Some (EXIT_FAILURE,
       \<lparr>r1 = d_0, r2 = d_0, code = map opcode_value [DCONST_1, DCONST_0, DIV, PRINT, HALT],
        stack = [d_1, d_0] @ replicate 254 d_0, pc = 3, sp = - 1\<rparr>,
       [DividingByZeroError (opcode_value DIV)])"
    using DIV_by_zero [where bo = LittleEndian and nan = sse_nan and a = d_1 and b = d_0
      and vm = "\<lparr>r1 = d_0, r2 = d_0, code = map opcode_value [DCONST_1, DCONST_0, DIV, PRINT, HALT],
        stack = [d_1, d_0] @ replicate 254 d_0, pc = 2, sp = 1\<rparr>"
      and vm' = "\<lparr>r1 = d_0, r2 = d_0, code = map opcode_value [DCONST_1, DCONST_0, DIV, PRINT, HALT],
        stack = [d_1, d_0] @ replicate 254 d_0, pc = 3, sp = 1\<rparr>"]
    by (simp add: NCODE_def INT_MAX_def STACK_SIZE_def is_zero_d_0)
  have 2: "step LittleEndian sse_nan
     \<lparr>r1 = d_0, r2 = d_0, code = [opcode_value DIV],
        stack = [d_m1, d_2] @ replicate 254 d_0, pc = 0, sp = 1\<rparr> =
     Some (Continue
       \<lparr>r1 = d_0, r2 = d_0, code = [opcode_value DIV],
        stack = [0xBFE0000000000000, d_2] @ replicate 254 d_0, pc = 1, sp = 0\<rparr> []) \<and>
   rounds_to (- 1 / 2) True 0xBFE0000000000000"
    using DIV_by_zero [where bo = LittleEndian and nan = sse_nan and a = d_m1 and b = d_2
      and vm = "\<lparr>r1 = d_0, r2 = d_0, code = [opcode_value DIV],
        stack = [d_m1, d_2] @ replicate 254 d_0, pc = 0, sp = 1\<rparr>"
      and vm' = "\<lparr>r1 = d_0, r2 = d_0, code = [opcode_value DIV],
        stack = [d_m1, d_2] @ replicate 254 d_0, pc = 1, sp = 1\<rparr>"]
    by (simp add: NCODE_def INT_MAX_def STACK_SIZE_def classified_examples ddiv_m1_2 dval_examples)
  have 3: "step LittleEndian sse_nan
     \<lparr>r1 = d_0, r2 = d_0, code = [opcode_value DIV],
        stack = [d_1, 0x4008000000000000] @ replicate 254 d_0, pc = 0, sp = 1\<rparr> =
     Some (Continue
       \<lparr>r1 = d_0, r2 = d_0, code = [opcode_value DIV],
        stack = [0x3FD5555555555555, 0x4008000000000000] @ replicate 254 d_0, pc = 1, sp = 0\<rparr> []) \<and>
   rounds_to (1 / 3) False 0x3FD5555555555555"
    using DIV_by_zero [where bo = LittleEndian and nan = sse_nan and a = d_1
      and b = "0x4008000000000000"
      and vm = "\<lparr>r1 = d_0, r2 = d_0, code = [opcode_value DIV],
        stack = [d_1, 0x4008000000000000] @ replicate 254 d_0, pc = 0, sp = 1\<rparr>"
      and vm' = "\<lparr>r1 = d_0, r2 = d_0, code = [opcode_value DIV],
        stack = [d_1, 0x4008000000000000] @ replicate 254 d_0, pc = 1, sp = 1\<rparr>"]
    by (simp add: NCODE_def INT_MAX_def STACK_SIZE_def classified_examples
        double_arithmetic_examples(2) dval_examples)
  have 4: "step LittleEndian sse_nan
     \<lparr>r1 = d_0, r2 = d_0, code = [opcode_value DIV],
        stack = [d_1, 0xFFF0000000000001] @ replicate 254 d_0, pc = 0, sp = 1\<rparr> =
     Some (Continue
       \<lparr>r1 = d_0, r2 = d_0, code = [opcode_value DIV],
        stack = [0xFFF8000000000001, 0xFFF0000000000001] @ replicate 254 d_0, pc = 1, sp = 0\<rparr> [])"
    using DIV_by_zero [where bo = LittleEndian and nan = sse_nan and a = d_1
      and b = "0xFFF0000000000001"
      and vm = "\<lparr>r1 = d_0, r2 = d_0, code = [opcode_value DIV],
        stack = [d_1, 0xFFF0000000000001] @ replicate 254 d_0, pc = 0, sp = 1\<rparr>"
      and vm' = "\<lparr>r1 = d_0, r2 = d_0, code = [opcode_value DIV],
        stack = [d_1, 0xFFF0000000000001] @ replicate 254 d_0, pc = 1, sp = 1\<rparr>"]
    by (simp add: NCODE_def INT_MAX_def STACK_SIZE_def classified_examples sse_nan_examples)
  from 1 2 3 4 show ?thesis by (simp only: simp_thms)
qed

text \<open>
  C5 (as amended). On a machine whose stack holds at least two values, each of \<open>ADD\<close>,
  \<open>SUB\<close>, \<open>MUL\<close>, \<open>DIV\<close> pops \<open>b\<close> first (the value pushed later) and \<open>a\<close> second (the
  value pushed earlier); \<open>ADD\<close>, \<open>SUB\<close> and \<open>MUL\<close> push \<open>a + b\<close>, \<open>a - b\<close> and \<open>a * b\<close>,
  and \<open>DIV\<close> pushes \<open>a / b\<close> when \<open>b\<close> is not zero. The second-popped value is always the
  left operand. What is pushed: for finite operands the double nearest to the exact sum,
  difference, product or quotient of the two values (ties to even; the infinity when that
  is out of range), with the sign IEEE-754 gives it; for infinite operands the infinity or
  zero of IEEE-754; and for a NaN operand or an invalid operation the NaN of the machine.
\<close>

theorem binary_operand_order:
  "NCODE vm = Some (opcode_value opc, vm') \<and> length (stack vm) = STACK_SIZE \<and>
   1 \<le> sp vm \<and> sp vm < int STACK_SIZE \<and>
   a = stack vm ! nat (sp vm - 1) \<and> b = stack vm ! nat (sp vm)
     \<longrightarrow>
   POP vm' = Some (b, vm'\<lparr>sp := sp vm - 1\<rparr>) \<and>
   POP (vm'\<lparr>sp := sp vm - 1\<rparr>) = Some (a, vm'\<lparr>sp := sp vm - 2\<rparr>) \<and>
   (opc = ADD \<longrightarrow>
      step bo nan vm =
        Some (Continue
          (vm\<lparr>stack := (stack vm)[nat (sp vm - 1) := dadd (nan ADD) a b],
              pc := pc vm + 1, sp := sp vm - 1\<rparr>) [])) \<and>
   (opc = SUB \<longrightarrow>
      step bo nan vm =
        Some (Continue
          (vm\<lparr>stack := (stack vm)[nat (sp vm - 1) := dsub (nan SUB) a b],
              pc := pc vm + 1, sp := sp vm - 1\<rparr>) [])) \<and>
   (opc = MUL \<longrightarrow>
      step bo nan vm =
        Some (Continue
          (vm\<lparr>stack := (stack vm)[nat (sp vm - 1) := dmul (nan MUL) a b],
              pc := pc vm + 1, sp := sp vm - 1\<rparr>) [])) \<and>
   (opc = DIV \<and> \<not> is_zero b \<longrightarrow>
      step bo nan vm =
        Some (Continue
          (vm\<lparr>stack := (stack vm)[nat (sp vm - 1) := ddiv (nan DIV) a b],
              pc := pc vm + 1, sp := sp vm - 1\<rparr>) [])) \<and>
   (is_finite a \<and> is_finite b \<longrightarrow>
      rounds_to (dval a + dval b)
        (if dval a + dval b = 0 then dsign a \<and> dsign b else dval a + dval b < 0)
        (dadd (nan ADD) a b) \<and>
      rounds_to (dval a - dval b)
        (if dval a - dval b = 0 then dsign a \<and> \<not> dsign b else dval a - dval b < 0)
        (dsub (nan SUB) a b) \<and>
      rounds_to (dval a * dval b) (dsign a \<noteq> dsign b) (dmul (nan MUL) a b) \<and>
      (\<not> is_zero b \<longrightarrow>
         rounds_to (dval a / dval b) (dsign a \<noteq> dsign b) (ddiv (nan DIV) a b))) \<and>
   (is_nan a \<or> is_nan b \<longrightarrow>
      dadd (nan ADD) a b = nan ADD a b \<and> dsub (nan SUB) a b = nan SUB a b \<and>
      dmul (nan MUL) a b = nan MUL a b \<and> ddiv (nan DIV) a b = nan DIV a b) \<and>
   (is_inf a \<and> is_finite b \<longrightarrow>
      dadd (nan ADD) a b = a \<and> dsub (nan SUB) a b = a \<and>
      dmul (nan MUL) a b = (if is_zero b then nan MUL a b else d_inf (dsign a \<noteq> dsign b)) \<and>
      (\<not> is_zero b \<longrightarrow> ddiv (nan DIV) a b = d_inf (dsign a \<noteq> dsign b))) \<and>
   (is_finite a \<and> is_inf b \<longrightarrow>
      dadd (nan ADD) a b = b \<and> dsub (nan SUB) a b = dneg b \<and>
      dmul (nan MUL) a b = (if is_zero a then nan MUL a b else d_inf (dsign a \<noteq> dsign b)) \<and>
      ddiv (nan DIV) a b = d_zero (dsign a \<noteq> dsign b)) \<and>
   (is_inf a \<and> is_inf b \<longrightarrow>
      dadd (nan ADD) a b = (if dsign a = dsign b then a else nan ADD a b) \<and>
      dsub (nan SUB) a b = (if dsign a = dsign b then nan SUB a b else a) \<and>
      dmul (nan MUL) a b = d_inf (dsign a \<noteq> dsign b) \<and>
      ddiv (nan DIV) a b = nan DIV a b)"
proof (intro impI conjI)
  assume h: "NCODE vm = Some (opcode_value opc, vm') \<and> length (stack vm) = STACK_SIZE \<and>
    1 \<le> sp vm \<and> sp vm < int STACK_SIZE \<and>
    a = stack vm ! nat (sp vm - 1) \<and> b = stack vm ! nat (sp vm)"
  then have v: "vm' = vm\<lparr>pc := pc vm + 1\<rparr>" by (simp add: NCODE_Some)
  have s: "step bo nan vm = execute bo nan opc vm'" using h by (simp add: step_fetch)
  have c: "1 \<le> sp vm'" "sp vm' < int (length (stack vm'))" "length (stack vm') = STACK_SIZE"
    using h by (simp_all add: v)
  have ab: "a = stack vm ! nat (sp vm - 1)" "b = stack vm ! nat (sp vm)" using h by simp_all
  show "POP vm' = Some (b, vm'\<lparr>sp := sp vm - 1\<rparr>)"
    using h by (simp add: POP_def Let_def v)
  show "POP (vm'\<lparr>sp := sp vm - 1\<rparr>) = Some (a, vm'\<lparr>sp := sp vm - 2\<rparr>)"
    using h by (simp add: POP_def Let_def v)
  {
    assume "opc = ADD"
    with execute_binop(1) [OF c] show "step bo nan vm =
        Some (Continue
          (vm\<lparr>stack := (stack vm)[nat (sp vm - 1) := dadd (nan ADD) a b],
              pc := pc vm + 1, sp := sp vm - 1\<rparr>) [])"
      by (simp add: s v ab)
  }
  {
    assume "opc = SUB"
    with execute_binop(2) [OF c] show "step bo nan vm =
        Some (Continue
          (vm\<lparr>stack := (stack vm)[nat (sp vm - 1) := dsub (nan SUB) a b],
              pc := pc vm + 1, sp := sp vm - 1\<rparr>) [])"
      by (simp add: s v ab)
  }
  {
    assume "opc = MUL"
    with execute_binop(3) [OF c] show "step bo nan vm =
        Some (Continue
          (vm\<lparr>stack := (stack vm)[nat (sp vm - 1) := dmul (nan MUL) a b],
              pc := pc vm + 1, sp := sp vm - 1\<rparr>) [])"
      by (simp add: s v ab)
  }
  {
    assume d: "opc = DIV \<and> \<not> is_zero b"
    then have "\<not> is_zero (stack vm' ! nat (sp vm'))" by (simp add: v ab)
    from execute_binop(4) [OF c this] d show "step bo nan vm =
        Some (Continue
          (vm\<lparr>stack := (stack vm)[nat (sp vm - 1) := ddiv (nan DIV) a b],
              pc := pc vm + 1, sp := sp vm - 1\<rparr>) [])"
      by (simp add: s v ab)
  }
  {
    assume f: "is_finite a \<and> is_finite b"
    show "rounds_to (dval a + dval b)
        (if dval a + dval b = 0 then dsign a \<and> dsign b else dval a + dval b < 0)
        (dadd (nan ADD) a b)"
      using f dadd_rounds_to [of a b "nan ADD"] by blast
    show "rounds_to (dval a - dval b)
        (if dval a - dval b = 0 then dsign a \<and> \<not> dsign b else dval a - dval b < 0)
        (dsub (nan SUB) a b)"
      using f dsub_rounds_to [of a b "nan SUB"] by blast
    show "rounds_to (dval a * dval b) (dsign a \<noteq> dsign b) (dmul (nan MUL) a b)"
      using f dmul_rounds_to [of a b "nan MUL"] by blast
    show "rounds_to (dval a / dval b) (dsign a \<noteq> dsign b) (ddiv (nan DIV) a b)"
      if "\<not> is_zero b"
      using f that ddiv_rounds_to [of a b "nan DIV"] by blast
  }
  {
    assume n: "is_nan a \<or> is_nan b"
    show "dadd (nan ADD) a b = nan ADD a b" using n by (auto simp: dadd_def)
    show "dsub (nan SUB) a b = nan SUB a b" using n by (auto simp: dsub_def)
    show "dmul (nan MUL) a b = nan MUL a b" using n by (auto simp: dmul_def)
    show "ddiv (nan DIV) a b = nan DIV a b" using n by (auto simp: ddiv_def)
  }
  {
    assume i: "is_inf a \<and> is_finite b"
    show "dadd (nan ADD) a b = a" using i dadd_special(2) [of a b "nan ADD"] by blast
    show "dsub (nan SUB) a b = a" using i dsub_special(2) [of a b "nan SUB"] by blast
    show "dmul (nan MUL) a b = (if is_zero b then nan MUL a b else d_inf (dsign a \<noteq> dsign b))"
      using i by (auto simp: dmul_def is_finite_def is_inf_def is_nan_def is_zero_def)
    show "ddiv (nan DIV) a b = d_inf (dsign a \<noteq> dsign b)" if "\<not> is_zero b"
      using i ddiv_special(2) [of a b "nan DIV"] by blast
  }
  {
    assume i: "is_finite a \<and> is_inf b"
    show "dadd (nan ADD) a b = b" using i dadd_special(3) [of a b "nan ADD"] by blast
    show "dsub (nan SUB) a b = dneg b" using i dsub_special(3) [of a b "nan SUB"] by blast
    show "dmul (nan MUL) a b = (if is_zero a then nan MUL a b else d_inf (dsign a \<noteq> dsign b))"
      using i by (auto simp: dmul_def is_finite_def is_inf_def is_nan_def is_zero_def)
    show "ddiv (nan DIV) a b = d_zero (dsign a \<noteq> dsign b)"
      using i ddiv_special(3) [of a b "nan DIV"] by blast
  }
  {
    assume i: "is_inf a \<and> is_inf b"
    show "dadd (nan ADD) a b = (if dsign a = dsign b then a else nan ADD a b)"
      using i by (auto simp: dadd_def dsum_def is_inf_def is_nan_def)
    show "dsub (nan SUB) a b = (if dsign a = dsign b then nan SUB a b else a)"
      using i by (auto simp: dsub_def dsum_def is_inf_def is_nan_def)
    show "dmul (nan MUL) a b = d_inf (dsign a \<noteq> dsign b)"
      using i by (auto simp: dmul_def is_inf_def is_nan_def is_zero_def)
    show "ddiv (nan DIV) a b = nan DIV a b"
      using i by (auto simp: ddiv_def)
  }
qed

text \<open>
  The theorem at \<open>2.0\<close> and \<open>1.0\<close> for \<open>ADD\<close>, \<open>SUB\<close>, \<open>MUL\<close>, and at \<open>-1.0\<close> and \<open>2.0\<close> for
  \<open>DIV\<close>: the results are the doubles 3, 1, 2 and -1/2, and these are the sum, the
  difference, the product and the quotient rounded. At \<open>1.0\<close> and a signalling NaN on a
  machine with the rule \<open>sse_nan\<close>, \<open>SUB\<close> leaves that NaN with its quiet bit set.
\<close>

theorem binary_operand_order_witness:
  "step BigEndian sse_nan
     \<lparr>r1 = d_0, r2 = d_0, code = [opcode_value ADD],
        stack = [d_2, d_1] @ replicate 254 d_0, pc = 0, sp = 1\<rparr> =
     Some (Continue
       \<lparr>r1 = d_0, r2 = d_0, code = [opcode_value ADD],
        stack = [0x4008000000000000, d_1] @ replicate 254 d_0, pc = 1, sp = 0\<rparr> []) \<and>
   rounds_to 3 False 0x4008000000000000 \<and>
   step BigEndian sse_nan
     \<lparr>r1 = d_0, r2 = d_0, code = [opcode_value SUB],
        stack = [d_2, d_1] @ replicate 254 d_0, pc = 0, sp = 1\<rparr> =
     Some (Continue
       \<lparr>r1 = d_0, r2 = d_0, code = [opcode_value SUB],
        stack = [d_1, d_1] @ replicate 254 d_0, pc = 1, sp = 0\<rparr> []) \<and>
   rounds_to 1 False d_1 \<and>
   step BigEndian sse_nan
     \<lparr>r1 = d_0, r2 = d_0, code = [opcode_value MUL],
        stack = [d_2, d_1] @ replicate 254 d_0, pc = 0, sp = 1\<rparr> =
     Some (Continue
       \<lparr>r1 = d_0, r2 = d_0, code = [opcode_value MUL],
        stack = [d_2, d_1] @ replicate 254 d_0, pc = 1, sp = 0\<rparr> []) \<and>
   rounds_to 2 False d_2 \<and>
   step BigEndian sse_nan
     \<lparr>r1 = d_0, r2 = d_0, code = [opcode_value DIV],
        stack = [d_m1, d_2] @ replicate 254 d_0, pc = 0, sp = 1\<rparr> =
     Some (Continue
       \<lparr>r1 = d_0, r2 = d_0, code = [opcode_value DIV],
        stack = [0xBFE0000000000000, d_2] @ replicate 254 d_0, pc = 1, sp = 0\<rparr> []) \<and>
   rounds_to (- 1 / 2) True 0xBFE0000000000000 \<and>
   step BigEndian sse_nan
     \<lparr>r1 = d_0, r2 = d_0, code = [opcode_value SUB],
        stack = [d_1, 0xFFF0000000000001] @ replicate 254 d_0, pc = 0, sp = 1\<rparr> =
     Some (Continue
       \<lparr>r1 = d_0, r2 = d_0, code = [opcode_value SUB],
        stack = [0xFFF8000000000001, 0xFFF0000000000001] @ replicate 254 d_0, pc = 1, sp = 0\<rparr> [])"
proof -
  have 1: "step BigEndian sse_nan
     \<lparr>r1 = d_0, r2 = d_0, code = [opcode_value ADD],
        stack = [d_2, d_1] @ replicate 254 d_0, pc = 0, sp = 1\<rparr> =
     Some (Continue
       \<lparr>r1 = d_0, r2 = d_0, code = [opcode_value ADD],
        stack = [0x4008000000000000, d_1] @ replicate 254 d_0, pc = 1, sp = 0\<rparr> []) \<and>
   rounds_to 3 False 0x4008000000000000"
    using binary_operand_order [where bo = BigEndian and nan = sse_nan and opc = ADD
      and a = d_2 and b = d_1
      and vm = "\<lparr>r1 = d_0, r2 = d_0, code = [opcode_value ADD],
        stack = [d_2, d_1] @ replicate 254 d_0, pc = 0, sp = 1\<rparr>"
      and vm' = "\<lparr>r1 = d_0, r2 = d_0, code = [opcode_value ADD],
        stack = [d_2, d_1] @ replicate 254 d_0, pc = 1, sp = 1\<rparr>"]
    by (simp add: NCODE_def INT_MAX_def STACK_SIZE_def classified_examples dadd_2_1 dval_examples)
  have 2: "step BigEndian sse_nan
     \<lparr>r1 = d_0, r2 = d_0, code = [opcode_value SUB],
        stack = [d_2, d_1] @ replicate 254 d_0, pc = 0, sp = 1\<rparr> =
     Some (Continue
       \<lparr>r1 = d_0, r2 = d_0, code = [opcode_value SUB],
        stack = [d_1, d_1] @ replicate 254 d_0, pc = 1, sp = 0\<rparr> []) \<and>
   rounds_to 1 False d_1"
    using binary_operand_order [where bo = BigEndian and nan = sse_nan and opc = SUB
      and a = d_2 and b = d_1
      and vm = "\<lparr>r1 = d_0, r2 = d_0, code = [opcode_value SUB],
        stack = [d_2, d_1] @ replicate 254 d_0, pc = 0, sp = 1\<rparr>"
      and vm' = "\<lparr>r1 = d_0, r2 = d_0, code = [opcode_value SUB],
        stack = [d_2, d_1] @ replicate 254 d_0, pc = 1, sp = 1\<rparr>"]
    by (simp add: NCODE_def INT_MAX_def STACK_SIZE_def classified_examples dsub_2_1 dval_examples)
  have 3: "step BigEndian sse_nan
     \<lparr>r1 = d_0, r2 = d_0, code = [opcode_value MUL],
        stack = [d_2, d_1] @ replicate 254 d_0, pc = 0, sp = 1\<rparr> =
     Some (Continue
       \<lparr>r1 = d_0, r2 = d_0, code = [opcode_value MUL],
        stack = [d_2, d_1] @ replicate 254 d_0, pc = 1, sp = 0\<rparr> []) \<and>
   rounds_to 2 False d_2"
    using binary_operand_order [where bo = BigEndian and nan = sse_nan and opc = MUL
      and a = d_2 and b = d_1
      and vm = "\<lparr>r1 = d_0, r2 = d_0, code = [opcode_value MUL],
        stack = [d_2, d_1] @ replicate 254 d_0, pc = 0, sp = 1\<rparr>"
      and vm' = "\<lparr>r1 = d_0, r2 = d_0, code = [opcode_value MUL],
        stack = [d_2, d_1] @ replicate 254 d_0, pc = 1, sp = 1\<rparr>"]
    by (simp add: NCODE_def INT_MAX_def STACK_SIZE_def classified_examples dmul_2_1 dval_examples)
  have 4: "step BigEndian sse_nan
     \<lparr>r1 = d_0, r2 = d_0, code = [opcode_value DIV],
        stack = [d_m1, d_2] @ replicate 254 d_0, pc = 0, sp = 1\<rparr> =
     Some (Continue
       \<lparr>r1 = d_0, r2 = d_0, code = [opcode_value DIV],
        stack = [0xBFE0000000000000, d_2] @ replicate 254 d_0, pc = 1, sp = 0\<rparr> []) \<and>
   rounds_to (- 1 / 2) True 0xBFE0000000000000"
    using binary_operand_order [where bo = BigEndian and nan = sse_nan and opc = DIV
      and a = d_m1 and b = d_2
      and vm = "\<lparr>r1 = d_0, r2 = d_0, code = [opcode_value DIV],
        stack = [d_m1, d_2] @ replicate 254 d_0, pc = 0, sp = 1\<rparr>"
      and vm' = "\<lparr>r1 = d_0, r2 = d_0, code = [opcode_value DIV],
        stack = [d_m1, d_2] @ replicate 254 d_0, pc = 1, sp = 1\<rparr>"]
    by (simp add: NCODE_def INT_MAX_def STACK_SIZE_def classified_examples ddiv_m1_2 dval_examples)
  have 5: "step BigEndian sse_nan
     \<lparr>r1 = d_0, r2 = d_0, code = [opcode_value SUB],
        stack = [d_1, 0xFFF0000000000001] @ replicate 254 d_0, pc = 0, sp = 1\<rparr> =
     Some (Continue
       \<lparr>r1 = d_0, r2 = d_0, code = [opcode_value SUB],
        stack = [0xFFF8000000000001, 0xFFF0000000000001] @ replicate 254 d_0, pc = 1, sp = 0\<rparr> [])"
    using binary_operand_order [where bo = BigEndian and nan = sse_nan and opc = SUB
      and a = d_1 and b = "0xFFF0000000000001"
      and vm = "\<lparr>r1 = d_0, r2 = d_0, code = [opcode_value SUB],
        stack = [d_1, 0xFFF0000000000001] @ replicate 254 d_0, pc = 0, sp = 1\<rparr>"
      and vm' = "\<lparr>r1 = d_0, r2 = d_0, code = [opcode_value SUB],
        stack = [d_1, 0xFFF0000000000001] @ replicate 254 d_0, pc = 1, sp = 1\<rparr>"]
    by (simp add: NCODE_def INT_MAX_def STACK_SIZE_def classified_examples sse_nan_examples dval_examples)
  from 1 2 3 4 5 show ?thesis by (simp only: simp_thms)
qed

text \<open>
  C5 as stated fails for \<open>DIV\<close> with a zero on top: on \<open>1.0\<close> and \<open>0.0\<close> it pushes nothing
  (the stack array is as before) and returns the failure.
\<close>

theorem DIV_pushes_quotient_counterexample:
  "step BigEndian sse_nan
     \<lparr>r1 = d_0, r2 = d_0, code = [opcode_value DIV],
        stack = [d_1, d_0] @ replicate 254 d_0, pc = 0, sp = 1\<rparr> =
     Some (Exit EXIT_FAILURE
       \<lparr>r1 = d_0, r2 = d_0, code = [opcode_value DIV],
        stack = [d_1, d_0] @ replicate 254 d_0, pc = 1, sp = - 1\<rparr>
       [DividingByZeroError (opcode_value DIV)])"
  by (simp add: step_def NCODE_def INT_MAX_def decode_opcode_value POP_def is_zero_d_0)

text \<open>
  C10. When \<open>DIV\<close> fails on a zero divisor, both operands have been popped before the
  test: in the machine that \<open>run\<close> returns with the failure, the stack pointer is two below
  its value before the \<open>DIV\<close>, and the stack array is unchanged.
\<close>

theorem DIV_error_after_pops:
  "NCODE vm = Some (opcode_value DIV, vm') \<and> length (stack vm) = STACK_SIZE \<and>
   1 \<le> sp vm \<and> sp vm < int STACK_SIZE \<and> is_zero (stack vm ! nat (sp vm))
     \<longrightarrow>
   POP vm' = Some (stack vm ! nat (sp vm), vm'\<lparr>sp := sp vm - 1\<rparr>) \<and>
   POP (vm'\<lparr>sp := sp vm - 1\<rparr>) = Some (stack vm ! nat (sp vm - 1), vm'\<lparr>sp := sp vm - 2\<rparr>) \<and>
   (\<exists>vm'' out. run bo nan vm = Some (EXIT_FAILURE, vm'', out) \<and>
      out = [DividingByZeroError (opcode_value DIV)] \<and>
      sp vm'' = sp vm - 2 \<and> stack vm'' = stack vm)"
proof (intro impI conjI)
  assume a: "NCODE vm = Some (opcode_value DIV, vm') \<and> length (stack vm) = STACK_SIZE \<and>
    1 \<le> sp vm \<and> sp vm < int STACK_SIZE \<and> is_zero (stack vm ! nat (sp vm))"
  then have v: "vm' = vm\<lparr>pc := pc vm + 1\<rparr>" by (simp add: NCODE_Some)
  have s: "step bo nan vm = execute bo nan DIV vm'" using a by (simp add: step_fetch)
  have b: "1 \<le> sp vm'" "sp vm' < int (length (stack vm'))" "length (stack vm') = STACK_SIZE"
    "is_zero (stack vm' ! nat (sp vm'))"
    using a by (simp_all add: v)
  show "POP vm' = Some (stack vm ! nat (sp vm), vm'\<lparr>sp := sp vm - 1\<rparr>)"
    using a by (simp add: POP_def Let_def v)
  show "POP (vm'\<lparr>sp := sp vm - 1\<rparr>) =
      Some (stack vm ! nat (sp vm - 1), vm'\<lparr>sp := sp vm - 2\<rparr>)"
    using a by (simp add: POP_def Let_def v)
  have "step bo nan vm =
      Some (Exit EXIT_FAILURE (vm'\<lparr>sp := sp vm' - 2\<rparr>) [DividingByZeroError (opcode_value DIV)])"
    using execute_binop(5) [OF b] by (simp add: s)
  then have "run bo nan vm =
      Some (EXIT_FAILURE, vm'\<lparr>sp := sp vm' - 2\<rparr>, [DividingByZeroError (opcode_value DIV)])"
    by (rule run_Exit)
  then show "\<exists>vm'' out. run bo nan vm = Some (EXIT_FAILURE, vm'', out) \<and>
      out = [DividingByZeroError (opcode_value DIV)] \<and>
      sp vm'' = sp vm - 2 \<and> stack vm'' = stack vm"
    by (simp add: v)
qed

text \<open>The theorem at \<open>DIV\<close> after \<open>DCONST_1, DCONST_0\<close>: the stack pointer goes from 1 to -1.\<close>

theorem DIV_error_after_pops_witness:
  "is_zero (stack \<lparr>r1 = d_0, r2 = d_0, code = map opcode_value [DCONST_1, DCONST_0, DIV, PRINT, HALT],
        stack = [d_1, d_0] @ replicate 254 d_0, pc = 2, sp = 1\<rparr> !
     nat (sp \<lparr>r1 = d_0, r2 = d_0, code = map opcode_value [DCONST_1, DCONST_0, DIV, PRINT, HALT],
        stack = [d_1, d_0] @ replicate 254 d_0, pc = 2, sp = 1\<rparr>)) \<and>
   (\<exists>vm''. run LittleEndian sse_nan
      \<lparr>r1 = d_0, r2 = d_0, code = map opcode_value [DCONST_1, DCONST_0, DIV, PRINT, HALT],
        stack = [d_1, d_0] @ replicate 254 d_0, pc = 2, sp = 1\<rparr> =
      Some (EXIT_FAILURE, vm'', [DividingByZeroError (opcode_value DIV)]) \<and>
      sp vm'' = - 1)"
  using
    DIV_error_after_pops [where bo = LittleEndian and nan = sse_nan
      and vm = "\<lparr>r1 = d_0, r2 = d_0, code = map opcode_value [DCONST_1, DCONST_0, DIV, PRINT, HALT],
        stack = [d_1, d_0] @ replicate 254 d_0, pc = 2, sp = 1\<rparr>"
      and vm' = "\<lparr>r1 = d_0, r2 = d_0, code = map opcode_value [DCONST_1, DCONST_0, DIV, PRINT, HALT],
        stack = [d_1, d_0] @ replicate 254 d_0, pc = 3, sp = 1\<rparr>"]
  by (auto simp add: NCODE_def INT_MAX_def STACK_SIZE_def is_zero_d_0)

section \<open>The sample programs of \<open>main\<close>\<close>

text \<open>
  C6. The program \<open>DCONST_2, DCONST_1, SUB, PRINT, HALT\<close> (the first example of \<open>main\<close>)
  on a new machine, whatever the byte order of the host and the contents of the fresh
  stack block: \<open>run\<close> returns \<open>EXIT_SUCCESS\<close> and has printed exactly one value, the double
  \<open>1.0\<close>. The machine is left with an empty stack and the program counter behind \<open>HALT\<close>.
\<close>

theorem subtraction_program:
  "run bo nan (newVM (map opcode_value [DCONST_2, DCONST_1, SUB, PRINT, HALT]) mem) =
     Some (EXIT_SUCCESS,
           (newVM (map opcode_value [DCONST_2, DCONST_1, SUB, PRINT, HALT]) mem)
             \<lparr>stack := (map mem [0..<STACK_SIZE])[0 := d_2, 1 := d_1, 0 := d_1], pc := 5, sp := - 1\<rparr>,
           [Printed d_1]) \<and>
   dval d_1 = 1"
  by (simp add: run.simps step_def newVM_def NCODE_def INT_MAX_def decode_opcode_value
      PUSH_def POP_def STACK_SIZE_def Let_def dsub_2_1 dval_examples)

text \<open>
  The other three programs of \<open>main\<close>: the two \<open>DCONST\<close> programs, whose operands are
  each other's reversal, and the division of \<open>-1.0\<close> by a \<open>2.0\<close> held in \<open>r1\<close>.
\<close>

lemma main_bytecode2:
  "outcome (run LittleEndian sse_nan
     (newVM [opcode_value DCONST, 0x3F, 0xF0, 0, 0, 0, 0, 0, 0, opcode_value PRINT,
             opcode_value HALT] mem)) =
     Some (EXIT_SUCCESS, [Printed 0xF03F])"
  "outcome (run BigEndian sse_nan
     (newVM [opcode_value DCONST, 0x3F, 0xF0, 0, 0, 0, 0, 0, 0, opcode_value PRINT,
             opcode_value HALT] mem)) =
     Some (EXIT_SUCCESS, [Printed d_1])"
  by (simp_all add: outcome_def run.simps step_def newVM_def NCODE_def INT_MAX_def
      decode_opcode_value memcpy_double_def PUSH_def POP_def STACK_SIZE_def Let_def int32_def
      le_sub be_one)

lemma main_bytecode3:
  "outcome (run LittleEndian sse_nan
     (newVM [opcode_value DCONST, 0, 0, 0, 0, 0, 0, 0xF0, 0x3F, opcode_value PRINT,
             opcode_value HALT] mem)) =
     Some (EXIT_SUCCESS, [Printed d_1])"
  by (simp add: outcome_def run.simps step_def newVM_def NCODE_def INT_MAX_def
      decode_opcode_value memcpy_double_def PUSH_def POP_def STACK_SIZE_def Let_def int32_def
      le_one)

lemma main_bytecode4:
  "outcome (run bo nan
     (newVM (map opcode_value [DCONST_2, ST1, DCONST_M1, LD1, DIV, PRINT, HALT]) mem)) =
     Some (EXIT_SUCCESS, [Printed 0xBFE0000000000000])"
  by (simp add: outcome_def run.simps step_def newVM_def NCODE_def INT_MAX_def
      decode_opcode_value PUSH_def POP_def STACK_SIZE_def Let_def not_is_zero_d_2 ddiv_m1_2)

section \<open>Registers\<close>

lemma decode_Some: "decode b = Some opc \<Longrightarrow> opcode_value opc = b"
  by (auto simp: decode_def find_Some_iff)

lemma execute_r1:
  "execute bo nan opc vm = Some res \<Longrightarrow> opc \<noteq> ST1 \<Longrightarrow> r1 (vm_of res) = r1 vm"
  by (cases opc) (auto simp: access_Some split: Option.bind_splits if_splits)

lemma execute_r2:
  "execute bo nan opc vm = Some res \<Longrightarrow> opc \<noteq> ST2 \<Longrightarrow> r2 (vm_of res) = r2 vm"
  by (cases opc) (auto simp: access_Some split: Option.bind_splits if_splits)

lemma step_cases:
  assumes "step bo nan vm = Some res"
  obtains (invalid) "decode (code vm ! nat (pc vm)) = None"
      "res = Exit EXIT_FAILURE (vm\<lparr>pc := pc vm + 1\<rparr>) [InvalidOpcodeError (code vm ! nat (pc vm))]"
    | (valid) opc where "decode (code vm ! nat (pc vm)) = Some opc"
      "execute bo nan opc (vm\<lparr>pc := pc vm + 1\<rparr>) = Some res"
  using assms
  by (auto simp: step_def NCODE_Some split: Option.bind_splits option.splits)

lemma step_r1:
  assumes "step bo nan vm = Some res" "code vm ! nat (pc vm) \<noteq> opcode_value ST1"
  shows "r1 (vm_of res) = r1 vm"
  using assms(1)
proof (cases rule: step_cases)
  case invalid
  then show ?thesis by simp
next
  case (valid opc)
  with assms(2) have "opc \<noteq> ST1" by (auto dest: decode_Some)
  with valid(2) show ?thesis by (auto dest: execute_r1)
qed

lemma step_r2:
  assumes "step bo nan vm = Some res" "code vm ! nat (pc vm) \<noteq> opcode_value ST2"
  shows "r2 (vm_of res) = r2 vm"
  using assms(1)
proof (cases rule: step_cases)
  case invalid
  then show ?thesis by simp
next
  case (valid opc)
  with assms(2) have "opc \<noteq> ST2" by (auto dest: decode_Some)
  with valid(2) show ?thesis by (auto dest: execute_r2)
qed

lemma step_store_load:
  assumes "step bo nan vm = Some res"
  shows "code vm ! nat (pc vm) = opcode_value ST1 \<Longrightarrow> r1 (vm_of res) = stack vm ! nat (sp vm)"
    and "code vm ! nat (pc vm) = opcode_value ST2 \<Longrightarrow> r2 (vm_of res) = stack vm ! nat (sp vm)"
    and "code vm ! nat (pc vm) = opcode_value LD1 \<Longrightarrow>
           stack (vm_of res) ! nat (sp (vm_of res)) = r1 vm"
    and "code vm ! nat (pc vm) = opcode_value LD2 \<Longrightarrow>
           stack (vm_of res) ! nat (sp (vm_of res)) = r2 vm"
  using assms
  by (auto simp: step_def NCODE_Some decode_opcode_value access_Some
      split: Option.bind_splits)

text \<open>
  C7. A new machine has \<open>0.0\<close> in both registers. In one turn of the loop, from any state
  and for any byte fetched, \<open>r1\<close> is changed only by \<open>ST1\<close>, which stores the popped top of
  stack in it, and \<open>r2\<close> only by \<open>ST2\<close>; \<open>LD1\<close> and \<open>LD2\<close> push the value of their
  register and leave it in the register.
\<close>

theorem registers_frame:
  "r1 (newVM c mem) = d_0 \<and> r2 (newVM c mem) = d_0 \<and>
   (step bo nan vm = Some res \<and> code vm ! nat (pc vm) \<noteq> opcode_value ST1
      \<longrightarrow> r1 (vm_of res) = r1 vm) \<and>
   (step bo nan vm = Some res \<and> code vm ! nat (pc vm) \<noteq> opcode_value ST2
      \<longrightarrow> r2 (vm_of res) = r2 vm) \<and>
   (step bo nan vm = Some res \<and> code vm ! nat (pc vm) = opcode_value ST1
      \<longrightarrow> r1 (vm_of res) = stack vm ! nat (sp vm)) \<and>
   (step bo nan vm = Some res \<and> code vm ! nat (pc vm) = opcode_value ST2
      \<longrightarrow> r2 (vm_of res) = stack vm ! nat (sp vm)) \<and>
   (step bo nan vm = Some res \<and> code vm ! nat (pc vm) = opcode_value LD1
      \<longrightarrow> stack (vm_of res) ! nat (sp (vm_of res)) = r1 vm \<and> r1 (vm_of res) = r1 vm) \<and>
   (step bo nan vm = Some res \<and> code vm ! nat (pc vm) = opcode_value LD2
      \<longrightarrow> stack (vm_of res) ! nat (sp (vm_of res)) = r2 vm \<and> r2 (vm_of res) = r2 vm)"
proof -
  have "opcode_value LD1 \<noteq> opcode_value ST1" "opcode_value LD2 \<noteq> opcode_value ST2"
    by (simp_all add: opcode_value.simps)
  then show ?thesis
    using step_r1 [of bo nan vm res] step_r2 [of bo nan vm res] step_store_load [of bo nan vm res]
    by (auto simp: newVM_def)
qed

text \<open>
  The theorem at \<open>ST1\<close> and \<open>ST2\<close> with \<open>2.0\<close> on top of the stack, and at \<open>LD1\<close> and \<open>LD2\<close>
  with \<open>-1.0\<close> in the register.
\<close>

theorem registers_frame_witness:
  "step LittleEndian sse_nan
     \<lparr>r1 = d_0, r2 = d_1, code = [opcode_value ST1],
        stack = [d_2, d_0] @ replicate 254 d_0, pc = 0, sp = 0\<rparr> =
     Some (Continue
       \<lparr>r1 = d_2, r2 = d_1, code = [opcode_value ST1],
        stack = [d_2, d_0] @ replicate 254 d_0, pc = 1, sp = - 1\<rparr> []) \<and>
   r1 (vm_of (Continue
     \<lparr>r1 = d_2, r2 = d_1, code = [opcode_value ST1],
        stack = [d_2, d_0] @ replicate 254 d_0, pc = 1, sp = - 1\<rparr> [])) = d_2 \<and>
   r2 (vm_of (Continue
     \<lparr>r1 = d_2, r2 = d_1, code = [opcode_value ST1],
        stack = [d_2, d_0] @ replicate 254 d_0, pc = 1, sp = - 1\<rparr> [])) = d_1 \<and>
   step LittleEndian sse_nan
     \<lparr>r1 = d_1, r2 = d_0, code = [opcode_value ST2],
        stack = [d_2, d_0] @ replicate 254 d_0, pc = 0, sp = 0\<rparr> =
     Some (Continue
       \<lparr>r1 = d_1, r2 = d_2, code = [opcode_value ST2],
        stack = [d_2, d_0] @ replicate 254 d_0, pc = 1, sp = - 1\<rparr> []) \<and>
   r1 (vm_of (Continue
     \<lparr>r1 = d_1, r2 = d_2, code = [opcode_value ST2],
        stack = [d_2, d_0] @ replicate 254 d_0, pc = 1, sp = - 1\<rparr> [])) = d_1 \<and>
   r2 (vm_of (Continue
     \<lparr>r1 = d_1, r2 = d_2, code = [opcode_value ST2],
        stack = [d_2, d_0] @ replicate 254 d_0, pc = 1, sp = - 1\<rparr> [])) = d_2 \<and>
   step LittleEndian sse_nan
     \<lparr>r1 = d_m1, r2 = d_1, code = [opcode_value LD1],
        stack = [d_2, d_0] @ replicate 254 d_0, pc = 0, sp = 0\<rparr> =
     Some (Continue
       \<lparr>r1 = d_m1, r2 = d_1, code = [opcode_value LD1],
        stack = [d_2, d_m1] @ replicate 254 d_0, pc = 1, sp = 1\<rparr> []) \<and>
   r1 (vm_of (Continue
     \<lparr>r1 = d_m1, r2 = d_1, code = [opcode_value LD1],
        stack = [d_2, d_m1] @ replicate 254 d_0, pc = 1, sp = 1\<rparr> [])) = d_m1 \<and>
   step LittleEndian sse_nan
     \<lparr>r1 = d_1, r2 = d_m1, code = [opcode_value LD2],
        stack = [d_2, d_0] @ replicate 254 d_0, pc = 0, sp = 0\<rparr> =
     Some (Continue
       \<lparr>r1 = d_1, r2 = d_m1, code = [opcode_value LD2],
        stack = [d_2, d_m1] @ replicate 254 d_0, pc = 1, sp = 1\<rparr> []) \<and>
   r2 (vm_of (Continue
     \<lparr>r1 = d_1, r2 = d_m1, code = [opcode_value LD2],
        stack = [d_2, d_m1] @ replicate 254 d_0, pc = 1, sp = 1\<rparr> [])) = d_m1"
  using
    registers_frame [where bo = LittleEndian and nan = sse_nan
      and vm = "\<lparr>r1 = d_0, r2 = d_1, code = [opcode_value ST1],
        stack = [d_2, d_0] @ replicate 254 d_0, pc = 0, sp = 0\<rparr>"
      and res = "Continue
       \<lparr>r1 = d_2, r2 = d_1, code = [opcode_value ST1],
        stack = [d_2, d_0] @ replicate 254 d_0, pc = 1, sp = - 1\<rparr> []"]
    registers_frame [where bo = LittleEndian and nan = sse_nan
      and vm = "\<lparr>r1 = d_1, r2 = d_0, code = [opcode_value ST2],
        stack = [d_2, d_0] @ replicate 254 d_0, pc = 0, sp = 0\<rparr>"
      and res = "Continue
       \<lparr>r1 = d_1, r2 = d_2, code = [opcode_value ST2],
        stack = [d_2, d_0] @ replicate 254 d_0, pc = 1, sp = - 1\<rparr> []"]
    registers_frame [where bo = LittleEndian and nan = sse_nan
      and vm = "\<lparr>r1 = d_m1, r2 = d_1, code = [opcode_value LD1],
        stack = [d_2, d_0] @ replicate 254 d_0, pc = 0, sp = 0\<rparr>"
      and res = "Continue
       \<lparr>r1 = d_m1, r2 = d_1, code = [opcode_value LD1],
        stack = [d_2, d_m1] @ replicate 254 d_0, pc = 1, sp = 1\<rparr> []"]
    registers_frame [where bo = LittleEndian and nan = sse_nan
      and vm = "\<lparr>r1 = d_1, r2 = d_m1, code = [opcode_value LD2],
        stack = [d_2, d_0] @ replicate 254 d_0, pc = 0, sp = 0\<rparr>"
      and res = "Continue
       \<lparr>r1 = d_1, r2 = d_m1, code = [opcode_value LD2],
        stack = [d_2, d_m1] @ replicate 254 d_0, pc = 1, sp = 1\<rparr> []"]
  by (simp add: step_def NCODE_def INT_MAX_def decode_opcode_value PUSH_def POP_def Let_def)

section \<open>Linear control\<close>

lemma execute_Exit:
  assumes "execute bo nan opc vm = Some (Exit s v out)"
  obtains "s = EXIT_SUCCESS" | "s = EXIT_FAILURE"
  using assms by (cases opc) (auto split: Option.bind_splits if_splits)

lemma decode_steps_remaining: "decode_steps bo nan vm \<le> remaining vm - 1"
proof (induction bo nan vm rule: decode_steps.induct)
  case (1 bo nan vm)
  show ?case
  proof (cases "NCODE vm")
    case None
    then show ?thesis by (subst decode_steps.simps) simp
  next
    case (Some fetched)
    then have r: "2 \<le> remaining vm"
      by (cases fetched) (auto simp: NCODE_Some remaining_def)
    show ?thesis
    proof (cases "step bo nan vm")
      case None
      with Some r show ?thesis by (subst decode_steps.simps) simp
    next
      case st: (Some res)
      show ?thesis
      proof (cases res)
        case (Exit s v out)
        with Some st r show ?thesis by (subst decode_steps.simps) simp
      next
        case (Continue vm' out)
        from "1.IH" [OF Some st Continue] have "decode_steps bo nan vm' \<le> remaining vm' - 1" .
        moreover from step_remaining [OF st] Continue have "remaining vm' < remaining vm" by simp
        ultimately have "Suc (decode_steps bo nan vm') \<le> remaining vm - 1" using r by linarith
        with Some st Continue show ?thesis by (subst decode_steps.simps) simp
      qed
    qed
  qed
qed

lemma step_pc_increases:
  assumes "step bo nan vm = Some res" "int (length (code vm)) \<le> INT_MAX"
  shows "pc vm < pc (vm_of res) \<and> pc (vm_of res) \<le> int (length (code vm))"
proof -
  from step_pc [OF assms(1)]
  have b: "0 \<le> pc vm" "pc vm < int (length (code vm))"
    and d: "pc (vm_of res) = pc vm + 1 \<or>
      pc (vm_of res) = int32 (pc vm + 9) \<and> pc vm + 9 \<le> int (length (code vm))"
    by auto
  from d show ?thesis
  proof
    assume "pc (vm_of res) = pc vm + 1"
    with b show ?thesis by simp
  next
    assume e: "pc (vm_of res) = int32 (pc vm + 9) \<and> pc vm + 9 \<le> int (length (code vm))"
    with assms(2) b have "int32 (pc vm + 9) = pc vm + 9"
      by (intro int32_small) (simp_all add: INT_MAX_def)
    with e show ?thesis by simp
  qed
qed

lemma run_status:
  "run bo nan vm = Some (status, vm', out) \<Longrightarrow> status = EXIT_SUCCESS \<or> status = EXIT_FAILURE"
proof (induction bo nan vm arbitrary: status vm' out rule: run.induct)
  case (1 bo nan vm)
  show ?case
  proof (cases "step bo nan vm")
    case None
    with "1.prems" show ?thesis by (simp add: run_None)
  next
    case (Some res)
    show ?thesis
    proof (cases res)
      case (Exit s v out')
      from Some have "s = EXIT_SUCCESS \<or> s = EXIT_FAILURE"
        by (cases rule: step_cases) (auto simp: Exit elim: execute_Exit)
      with Some Exit "1.prems" show ?thesis by (simp add: run_Exit)
    next
      case (Continue v out')
      with Some "1.prems" "1.IH" [OF Some Continue] show ?thesis
        by (auto simp: run_Continue)
    qed
  qed
qed

lemma run_off_the_end: "int (length (code vm)) \<le> pc vm \<Longrightarrow> run bo nan vm = None"
  by (rule run_None) (simp add: step_def NCODE_def Let_def)

text \<open>
  C8 (as amended). For every code buffer of a new machine, the loop fetches at most
  \<open>len(code)\<close> opcodes from the buffer. Each turn of the loop that is defined moves the
  program counter forward and not beyond the end of the buffer (for a buffer of at most
  \<open>INT_MAX\<close> bytes, so that the \<open>int\<close> does not wrap), and there is no opcode that moves
  it back. A run that returns does so with \<open>EXIT_SUCCESS\<close> or \<open>EXIT_FAILURE\<close>. A run whose
  program counter reaches the end of the buffer has not ended with an error: its next fetch
  reads outside the buffer.
\<close>

theorem linear_control:
  "decode_steps bo nan (newVM c mem) \<le> length c \<and>
   (step bo nan vm = Some res \<and> int (length (code vm)) \<le> INT_MAX
      \<longrightarrow> pc vm < pc (vm_of res) \<and> pc (vm_of res) \<le> int (length (code vm))) \<and>
   (run bo nan vm = Some (status, vm', out) \<longrightarrow> status = EXIT_SUCCESS \<or> status = EXIT_FAILURE) \<and>
   (int (length (code vm)) \<le> pc vm \<longrightarrow> run bo nan vm = None)"
proof -
  have "decode_steps bo nan (newVM c mem) \<le> remaining (newVM c mem) - 1"
    by (rule decode_steps_remaining)
  then have "decode_steps bo nan (newVM c mem) \<le> length c"
    by (simp add: remaining_def newVM_def)
  then show ?thesis
    using step_pc_increases [of bo nan vm res] run_status [of bo nan vm status vm' out]
      run_off_the_end [of vm bo nan]
    by blast
qed

text \<open>
  The theorem at the program \<open>HALT\<close>, and at the program \<open>NOP\<close> after its only opcode has
  been executed.
\<close>

theorem linear_control_witness:
  "step LittleEndian sse_nan (newVM [opcode_value HALT] of_nat) =
     Some (Exit EXIT_SUCCESS ((newVM [opcode_value HALT] of_nat)\<lparr>pc := 1\<rparr>) []) \<and>
   int (length (code (newVM [opcode_value HALT] of_nat))) \<le> INT_MAX \<and>
   pc (newVM [opcode_value HALT] of_nat) <
     pc (vm_of (Exit EXIT_SUCCESS ((newVM [opcode_value HALT] of_nat)\<lparr>pc := 1\<rparr>) [])) \<and>
   run LittleEndian sse_nan (newVM [opcode_value HALT] of_nat) =
     Some (EXIT_SUCCESS, (newVM [opcode_value HALT] of_nat)\<lparr>pc := 1\<rparr>, []) \<and>
   decode_steps LittleEndian sse_nan (newVM [opcode_value HALT] of_nat) \<le> 1 \<and>
   int (length (code ((newVM [opcode_value NOP] of_nat)\<lparr>pc := 1\<rparr>))) \<le>
     pc ((newVM [opcode_value NOP] of_nat)\<lparr>pc := 1\<rparr>) \<and>
   run LittleEndian sse_nan ((newVM [opcode_value NOP] of_nat)\<lparr>pc := 1\<rparr>) = None"
  using
    linear_control [where bo = LittleEndian and nan = sse_nan and c = "[opcode_value HALT]" and mem = of_nat
      and vm = "newVM [opcode_value HALT] of_nat"
      and res = "Exit EXIT_SUCCESS ((newVM [opcode_value HALT] of_nat)\<lparr>pc := 1\<rparr>) []"
      and status = EXIT_SUCCESS and vm' = "(newVM [opcode_value HALT] of_nat)\<lparr>pc := 1\<rparr>"
      and out = "[]"]
    linear_control [where bo = LittleEndian and nan = sse_nan and c = "[opcode_value HALT]" and mem = of_nat
      and vm = "(newVM [opcode_value NOP] of_nat)\<lparr>pc := 1\<rparr>"]
  by (simp add: run.simps step_def newVM_def NCODE_def INT_MAX_def decode_opcode_value)

text \<open>
  C8 as stated fails: the programs \<open>NOP\<close> and \<open>DCONST_1, PRINT\<close>, which lack \<open>HALT\<close>, end
  neither halted nor with an error; the fetch after the last opcode leaves the buffer.
\<close>

theorem missing_HALT_counterexample:
  "run LittleEndian sse_nan (newVM [opcode_value NOP] of_nat) = None \<and>
   run LittleEndian sse_nan (newVM [opcode_value DCONST_1, opcode_value PRINT] of_nat) = None"
  by (simp add: run.simps step_def newVM_def NCODE_def INT_MAX_def decode_opcode_value
      PUSH_def POP_def Let_def STACK_SIZE_def)

section \<open>Independence of a run from the fresh stack block\<close>

text \<open>
  Two machines are alike when they differ at most in the stack cells above the stack
  pointer, which hold what \<open>malloc\<close> or earlier pops have left there.
\<close>

definition same_live :: "VM \<Rightarrow> VM \<Rightarrow> bool" where
  "same_live v w \<longleftrightarrow>
     r1 v = r1 w \<and> r2 v = r2 w \<and> code v = code w \<and> pc v = pc w \<and> sp v = sp w \<and>
     length (stack v) = length (stack w) \<and>
     (\<forall>i. int i \<le> sp v \<longrightarrow> i < length (stack v) \<longrightarrow> stack v ! i = stack w ! i)"

fun same_result :: "step_result \<Rightarrow> step_result \<Rightarrow> bool" where
  "same_result (Continue v out) (Continue w out') \<longleftrightarrow> same_live v w \<and> out = out'"
| "same_result (Exit s v out) (Exit s' w out') \<longleftrightarrow> s = s' \<and> same_live v w \<and> out = out'"
| "same_result _ _ \<longleftrightarrow> False"

fun same_outcome :: "int \<times> VM \<times> event list \<Rightarrow> int \<times> VM \<times> event list \<Rightarrow> bool" where
  "same_outcome (s, v, out) (s', w, out') \<longleftrightarrow> s = s' \<and> same_live v w \<and> out = out'"

lemma rel_option_bind:
  assumes "rel_option A x y" "\<And>a b. A a b \<Longrightarrow> rel_option B (f a) (g b)"
  shows "rel_option B (x \<bind> f) (y \<bind> g)"
  using assms by (cases x; cases y) auto

lemma PUSH_same_live:
  "same_live v w \<Longrightarrow> rel_option same_live (PUSH v x) (PUSH w x)"
  by (auto simp: same_live_def PUSH_def Let_def nth_list_update)

lemma POP_same_live:
  "same_live v w \<Longrightarrow> rel_option (rel_prod (=) same_live) (POP v) (POP w)"
  by (auto simp: same_live_def POP_def Let_def)

lemma NCODE_same_live:
  "same_live v w \<Longrightarrow> rel_option (rel_prod (=) same_live) (NCODE v) (NCODE w)"
  by (auto simp: same_live_def NCODE_def Let_def)

lemma memcpy_same_live:
  "same_live v w \<Longrightarrow> memcpy_double bo v = memcpy_double bo w"
  by (auto simp: same_live_def memcpy_double_def)

lemma same_live_update:
  "same_live v w \<Longrightarrow> same_live (v\<lparr>pc := k\<rparr>) (w\<lparr>pc := k\<rparr>)"
  "same_live v w \<Longrightarrow> same_live (v\<lparr>r1 := x\<rparr>) (w\<lparr>r1 := x\<rparr>)"
  "same_live v w \<Longrightarrow> same_live (v\<lparr>r2 := x\<rparr>) (w\<lparr>r2 := x\<rparr>)"
  by (auto simp: same_live_def)

lemma same_live_regs: "same_live v w \<Longrightarrow> r1 v = r1 w \<and> r2 v = r2 w \<and> pc v = pc w"
  by (simp add: same_live_def)

lemma push_continue:
  "same_live v w \<Longrightarrow>
     rel_option same_result (PUSH v x \<bind> (\<lambda>vm. Some (Continue vm [])))
       (PUSH w x \<bind> (\<lambda>vm. Some (Continue vm [])))"
  by (rule rel_option_bind [OF PUSH_same_live]) auto

lemma pop2:
  assumes "same_live v w"
    and "\<And>a b v' w'. same_live v' w' \<Longrightarrow> rel_option same_result (f a b v') (f a b w')"
  shows "rel_option same_result
     (POP v \<bind> (\<lambda>(b, vm). POP vm \<bind> (\<lambda>(a, vm). f a b vm)))
     (POP w \<bind> (\<lambda>(b, vm). POP vm \<bind> (\<lambda>(a, vm). f a b vm)))"
  apply (rule rel_option_bind [OF POP_same_live [OF assms(1)]])
  apply (clarsimp)
  apply (rule rel_option_bind [OF POP_same_live])
   apply assumption
  apply (clarsimp simp: assms(2))
  done

lemma pop1:
  assumes "same_live v w"
    and "\<And>b v' w'. same_live v' w' \<Longrightarrow> rel_option same_result (f b v') (f b w')"
  shows "rel_option same_result
     (POP v \<bind> (\<lambda>(b, vm). f b vm)) (POP w \<bind> (\<lambda>(b, vm). f b vm))"
  apply (rule rel_option_bind [OF POP_same_live [OF assms(1)]])
  apply (clarsimp simp: assms(2))
  done

lemma execute_same_live:
  assumes "same_live v w"
  shows "rel_option same_result (execute bo nan opc v) (execute bo nan opc w)"
proof (cases opc)
  case DCONST
  show ?thesis
    using assms
    by (auto simp: DCONST memcpy_same_live [OF assms] same_live_regs
        intro!: rel_option_bind [where A = "(=)"] push_continue same_live_update
        simp: option.rel_eq)
next
  case DIV
  show ?thesis unfolding DIV execute.simps
    by (rule pop2 [OF assms]) (auto intro: push_continue)
qed (use assms in \<open>auto simp: same_live_regs same_live_update
      intro!: push_continue pop2 pop1\<close>)

lemma step_same_live:
  assumes "same_live v w"
  shows "rel_option same_result (step bo nan v) (step bo nan w)"
  unfolding step_def
  apply (rule rel_option_bind [OF NCODE_same_live [OF assms]])
  apply (auto split: option.splits intro: execute_same_live)
  done

lemma run_same_live:
  "same_live v w \<Longrightarrow> rel_option same_outcome (run bo nan v) (run bo nan w)"
proof (induction bo nan v arbitrary: w rule: run.induct)
  case (1 bo nan vm)
  from step_same_live [OF "1.prems", of bo nan]
  show ?case
  proof (cases rule: option.rel_cases)
    case None
    then show ?thesis by (simp add: run_None)
  next
    case (Some x y)
    show ?thesis
    proof (cases x)
      case (Exit s v' out)
      with Some obtain w' where "y = Exit s w' out" "same_live v' w'"
        by (cases y) auto
      with Some Exit show ?thesis by (simp add: run_Exit)
    next
      case (Continue v' out)
      with Some obtain w' where y: "y = Continue w' out" "same_live v' w'"
        by (cases y) auto
      from "1.IH" [OF Some(1) Continue y(2)]
      have "rel_option same_outcome (run bo nan v') (run bo nan w')" .
      then have "rel_option same_outcome
          (map_option (\<lambda>(status, vm'', out'). (status, vm'', out @ out')) (run bo nan v'))
          (map_option (\<lambda>(status, vm'', out'). (status, vm'', out @ out')) (run bo nan w'))"
        by (cases rule: option.rel_cases) auto
      with Some Continue y show ?thesis by (simp add: run_Continue)
    qed
  qed
qed

lemma newVM_same_live: "same_live (newVM c mem) (newVM c mem')"
  by (simp add: same_live_def newVM_def)

text \<open>
  C9 (as amended). \<open>run\<close> is a function of the machine, and a new machine is made of the
  byte sequence and of the uninitialised stack block only. For every byte sequence whose
  run on a new machine stays inside the code buffer and the stack array, and so returns a
  status after printing some lines: whatever the stack block of a second new machine holds,
  the run of the same byte sequence on it stays inside the arrays as well, returns the same
  status and prints the same lines. A cell of the stack is read only after it has been
  written, so nothing of an earlier run reaches a later one.
\<close>

theorem run_deterministic:
  "run bo nan (newVM c mem) = Some (status, vm, out) \<longrightarrow>
   (\<exists>vm'. run bo nan (newVM c mem') = Some (status, vm', out))"
proof
  assume r: "run bo nan (newVM c mem) = Some (status, vm, out)"
  from run_same_live [OF newVM_same_live, of bo nan c mem mem']
  show "\<exists>vm'. run bo nan (newVM c mem') = Some (status, vm', out)"
    by (cases rule: option.rel_cases) (auto simp: r)
qed

text \<open>
  The theorem at the first program of \<open>main\<close>, on a stack block of zeros and on one that
  holds the bit patterns 0, 1, 2, ...
\<close>

theorem run_deterministic_witness:
  "run LittleEndian sse_nan
     (newVM (map opcode_value [DCONST_2, DCONST_1, SUB, PRINT, HALT]) (\<lambda>i. 0)) =
     Some (EXIT_SUCCESS,
           (newVM (map opcode_value [DCONST_2, DCONST_1, SUB, PRINT, HALT]) (\<lambda>i. 0))
             \<lparr>stack := (map (\<lambda>i. 0) [0..<STACK_SIZE])[0 := d_2, 1 := d_1, 0 := d_1],
              pc := 5, sp := - 1\<rparr>,
           [Printed d_1]) \<and>
   (\<exists>vm'. run LittleEndian sse_nan
      (newVM (map opcode_value [DCONST_2, DCONST_1, SUB, PRINT, HALT]) of_nat) =
      Some (EXIT_SUCCESS, vm', [Printed d_1]))"
proof -
  have r: "run LittleEndian sse_nan
     (newVM (map opcode_value [DCONST_2, DCONST_1, SUB, PRINT, HALT]) (\<lambda>i. 0)) =
     Some (EXIT_SUCCESS,
           (newVM (map opcode_value [DCONST_2, DCONST_1, SUB, PRINT, HALT]) (\<lambda>i. 0))
             \<lparr>stack := (map (\<lambda>i. 0) [0..<STACK_SIZE])[0 := d_2, 1 := d_1, 0 := d_1],
              pc := 5, sp := - 1\<rparr>,
           [Printed d_1])"
    by (simp add: run.simps step_def newVM_def NCODE_def INT_MAX_def decode_opcode_value
        PUSH_def POP_def STACK_SIZE_def Let_def dsub_2_1)
  from run_deterministic [where bo = LittleEndian and nan = sse_nan and mem = "\<lambda>i. 0"
      and mem' = of_nat and c = "map opcode_value [DCONST_2, DCONST_1, SUB, PRINT, HALT]"
      and status = EXIT_SUCCESS and out = "[Printed d_1]"
      and vm = "(newVM (map opcode_value [DCONST_2, DCONST_1, SUB, PRINT, HALT]) (\<lambda>i. 0))
             \<lparr>stack := (map (\<lambda>i. 0) [0..<STACK_SIZE])[0 := d_2, 1 := d_1, 0 := d_1],
              pc := 5, sp := - 1\<rparr>"] r
  show ?thesis by simp
qed

text \<open>
  C9 as stated fails for the byte sequences whose run leaves the arrays. The program
  \<open>PRINT, HALT\<close> on a new machine pops \<open>stack[-1]\<close>, the memory before the stack block:
  what it prints is not a function of the byte sequence, and the run has no defined
  output and no defined result. The same holds of the empty byte sequence, whose first
  fetch is outside the code buffer.
\<close>

theorem read_outside_stack_counterexample:
  "run LittleEndian sse_nan (newVM [opcode_value PRINT, opcode_value HALT] of_nat) = None \<and>
   run LittleEndian sse_nan (newVM [] of_nat) = None"
  by (simp add: run.simps step_def newVM_def NCODE_def INT_MAX_def decode_opcode_value
      PUSH_def POP_def Let_def STACK_SIZE_def)

end
